theory Spec2Isabelle
  imports Main "HOL-Library.Word" "HOL-Library.Sublist"
begin

unbundle bit_operations_syntax

section \<open>Data model\<close>

text \<open>
  The wallet's chain state manager (package \<open>spvwallet\<close>, type \<open>Blockchain\<close>) and its
  request queue (\<open>RequestQueue\<close>). Go's \<open>uint32\<close>, \<open>uint16\<close> and \<open>byte\<close> are words, so
  that \<open>height + 100\<close> and \<open>removed.Height - 1\<close> wrap as they do in Go; \<open>big.Int\<close> is
  \<open>int\<close>. \<open>Uint256\<close> is Go's \<open>[32]byte\<close> and \<open>Uint168\<close> its \<open>[21]byte\<close>, kept as byte
  lists.
\<close>

type_synonym u8 = "8 word"
type_synonym u16 = "16 word"
type_synonym u32 = "32 word"
type_synonym Uint256 = "u8 list"
type_synonym Uint168 = "u8 list"
type_synonym Fixed64 = "64 word"

datatype error = Error string

datatype ChainState = SYNCING | WAITING

text \<open>
  Transactions, as far as \<open>commitTxn\<close> reads them. Only \<open>tx.CoinBase\<close> is told apart
  from the other transaction types. \<open>Hash\<close> is the value of the method \<open>Hash()\<close> and
  \<open>Unsigned\<close> the bytes \<open>SerializeUnsigned\<close> writes; both are computed by the core
  package from the transaction and are carried here as fields.
\<close>

datatype TransactionType = CoinBase | TransferAsset

record OutPoint =
  TxID :: Uint256
  Index :: u16

record Output =
  ProgramHash :: Uint168
  Value :: Fixed64

record Input =
  ReferTxID :: Uint256
  ReferTxOutputIndex :: u16
  Sequence :: u32

record Transaction =
  TxType :: TransactionType
  Outputs :: "Output list"
  Inputs :: "Input list"
  Unsigned :: "u8 list"
  Hash :: Uint256

record UTXO =
  Op :: OutPoint
  Value :: Fixed64
  LockTime :: u32
  AtHeight :: u32

record Txn =
  TxId :: Uint256
  Height :: u32
  RawData :: "u8 list"

record Proof =
  BlockHash :: Uint256
  Hashes :: "Uint256 list"

text \<open>
  A block header: its height, the hash of its predecessor, the compact difficulty bits,
  the hash of the parent block header of its merged-mining proof
  (\<open>header.AuxPow.ParBlockHeader.Hash()\<close>) and its own hash (\<open>header.Hash()\<close>).
\<close>

record Header =
  Height :: u32
  Previous :: Uint256
  Bits :: u32
  AuxPow_ParBlockHeader_Hash :: Uint256
  Hash :: Uint256

subsection \<open>The stores behind the chain\<close>

text \<open>
  \<open>db.Headers\<close> and \<open>db.DataStore\<close> are Go interfaces whose implementations are outside
  this package. The model takes them as a record of operations over a headers store
  \<open>'hs\<close> and a data store \<open>'ds\<close>. An operation that returns an error leaves its store
  as it was (\<open>Inl\<close>); a successful one returns the updated store.
\<close>

record ('hs, 'ds) Stores =
  Headers_GetTip :: "'hs \<Rightarrow> error + Header"
  Headers_GetPrevious :: "'hs \<Rightarrow> Header \<Rightarrow> error + Header"
  Headers_Add :: "'hs \<Rightarrow> Header \<Rightarrow> error + 'hs"
  Headers_Rollback :: "'hs \<Rightarrow> error + Header \<times> 'hs"
  Addrs_ContainAddr :: "'ds \<Rightarrow> Uint168 \<Rightarrow> bool"
  UTXOs_Put :: "'ds \<Rightarrow> Uint168 \<Rightarrow> UTXO \<Rightarrow> error + 'ds"
  STXOs_FromUTXO :: "'ds \<Rightarrow> OutPoint \<Rightarrow> Uint256 \<Rightarrow> u32 \<Rightarrow> error + 'ds"
  TXNs_Put :: "'ds \<Rightarrow> Txn \<Rightarrow> error + 'ds"
  Proofs_Put :: "'ds \<Rightarrow> Proof \<Rightarrow> error + 'ds"
  DataStore_Rollback :: "'ds \<Rightarrow> u32 \<Rightarrow> error + 'ds"
  Info_SaveChainHeight :: "'ds \<Rightarrow> u32 \<Rightarrow> 'ds"

text \<open>
  What a call has done to the outside world, in order: every successful write to a
  store and every callback dispatched with \<open>go\<close>. Reads and failed writes leave no
  entry.
\<close>

datatype effect =
    Put_UTXO Uint168 UTXO
  | Moved_To_STXO OutPoint Uint256 u32
  | Put_Txn Txn
  | Put_Proof Proof
  | Added_Header Header
  | Removed_Header Header
  | Rolled_Back u32
  | Saved_ChainHeight u32
  | OnTxCommit Transaction
  | OnBlockCommit Header Proof "Transaction list"
  | OnRollback u32

record ('hs, 'ds) Blockchain =
  state :: ChainState
  Headers :: 'hs
  DataStore :: 'ds
  effects :: "effect list"

section \<open>Proof of work\<close>

definition PowLimit :: int where
  "PowLimit = push_bit 255 1 - 1"

definition CompactToBig :: "u32 \<Rightarrow> int" where
  "CompactToBig compact =
     (let mantissa = compact AND 0x007fffff;
          isNegative = (compact AND 0x00800000 \<noteq> 0);
          exponent = unat (drop_bit 24 compact);
          bn = (if exponent \<le> 3 then uint (drop_bit (8 * (3 - exponent)) mantissa)
                else push_bit (8 * (exponent - 3)) (uint mantissa))
      in if isNegative then - bn else bn)"

text \<open>
  \<open>HashToBig\<close> copies the array, swaps \<open>buf[i]\<close> with \<open>buf[blen-1-i]\<close> for
  \<open>i < blen/2\<close> and reads the result with \<open>big.Int.SetBytes\<close>, which takes the bytes as
  a big-endian unsigned number.
\<close>

function reverseLoop :: "nat \<Rightarrow> u8 list \<Rightarrow> u8 list" where
  "reverseLoop i buf =
     (if i < length buf div 2
      then reverseLoop (i + 1)
             (buf[i := buf ! (length buf - 1 - i), length buf - 1 - i := buf ! i])
      else buf)"
  by pat_completeness auto
termination
  by (relation "measure (\<lambda>(i, buf). length buf div 2 - i)") auto

declare reverseLoop.simps [simp del]

definition SetBytes :: "u8 list \<Rightarrow> int" where
  "SetBytes buf = foldl (\<lambda>acc b. acc * 256 + uint b) 0 buf"

definition HashToBig :: "Uint256 \<Rightarrow> int" where
  "HashToBig hash = SetBytes (reverseLoop 0 hash)"

text \<open>
  \<open>CheckProofOfWork\<close> is a method of the chain; the chain is returned with the result
  so that what the call does to it can be stated.
\<close>

definition CheckProofOfWork ::
  "('hs, 'ds) Blockchain \<Rightarrow> Header \<Rightarrow> error option \<times> ('hs, 'ds) Blockchain" where
  "CheckProofOfWork bc header =
     (let target = CompactToBig (Bits header) in
      if target \<le> 0
      then (Some (Error ''[Blockchain], block target difficulty is too low.''), bc)
      else if target > PowLimit
      then (Some (Error ''[Blockchain], block target difficulty is higher than max of limit.''), bc)
      else
        let hashNum = HashToBig (AuxPow_ParBlockHeader_Hash header) in
        if hashNum > target
        then (Some (Error ''[Blockchain], block target difficulty is higher than expected difficulty.''), bc)
        else (None, bc))"

text \<open>The spec's words for the compact encoding, to compare \<open>CompactToBig\<close> with.\<close>

definition compact_mantissa :: "u32 \<Rightarrow> int" where
  "compact_mantissa compact = uint compact mod 2 ^ 23"

definition compact_exponent :: "u32 \<Rightarrow> nat" where
  "compact_exponent compact = unat compact div 2 ^ 24"

definition compact_sign :: "u32 \<Rightarrow> int" where
  "compact_sign compact = (if bit compact 23 then - 1 else 1)"

definition compact_spec :: "u32 \<Rightarrow> int" where
  "compact_spec compact =
     compact_sign compact *
       (if compact_exponent compact \<le> 3
        then compact_mantissa compact div 2 ^ (8 * (3 - compact_exponent compact))
        else compact_mantissa compact * 2 ^ (8 * (compact_exponent compact - 3)))"

definition big_endian :: "u8 list \<Rightarrow> int" where
  "big_endian bs = (\<Sum>i < length bs. uint (bs ! i) * 256 ^ (length bs - 1 - i))"

section \<open>Committing transactions and blocks\<close>

definition NewOutPoint :: "Uint256 \<Rightarrow> u16 \<Rightarrow> OutPoint" where
  "NewOutPoint txId index = \<lparr>TxID = txId, Index = index\<rparr>"

text \<open>\<open>ToUTXO\<close> takes the output's position as a Go \<open>int\<close> and narrows it with \<open>uint16(index)\<close>.\<close>

definition ToUTXO :: "Uint256 \<Rightarrow> u32 \<Rightarrow> nat \<Rightarrow> Fixed64 \<Rightarrow> u32 \<Rightarrow> UTXO" where
  "ToUTXO txId height index val lockTime =
     \<lparr>Op = NewOutPoint txId (of_nat index), Value = val, LockTime = lockTime,
      AtHeight = height\<rparr>"

definition ToTxn :: "Transaction \<Rightarrow> u32 \<Rightarrow> Txn" where
  "ToTxn tx height =
     \<lparr>TxId = Transaction.Hash tx, Height = height, RawData = Unsigned tx\<rparr>"

text \<open>
  \<open>commitTxn\<close>, first loop: \<open>for index, output := range txn.Outputs\<close>. An output to a
  watched address is put into the UTXO table and counted; a failing \<open>Put\<close> ends
  \<open>commitTxn\<close> with the error, the chain being as the earlier outputs left it.
\<close>

fun commitOutputs ::
  "('hs, 'ds) Stores \<Rightarrow> u32 \<Rightarrow> Transaction \<Rightarrow> (nat \<times> Output) list \<Rightarrow>
   ('hs, 'ds) Blockchain \<Rightarrow> nat \<Rightarrow> (error + nat) \<times> ('hs, 'ds) Blockchain" where
  "commitOutputs S height txn [] bc hits = (Inr hits, bc)"
| "commitOutputs S height txn ((index, output) # rest) bc hits =
     (if Addrs_ContainAddr S (DataStore bc) (ProgramHash output)
      then
        let lockTime = (if TxType txn = CoinBase then height + 100 else 0);
            utxo = ToUTXO (Transaction.Hash txn) height index (Output.Value output) lockTime
        in case UTXOs_Put S (DataStore bc) (ProgramHash output) utxo of
             Inl err \<Rightarrow> (Inl err, bc)
           | Inr ds \<Rightarrow>
               commitOutputs S height txn rest
                 (bc\<lparr>DataStore := ds,
                     effects := effects bc @ [Put_UTXO (ProgramHash output) utxo]\<rparr>)
                 (hits + 1)
      else commitOutputs S height txn rest bc hits)"

text \<open>
  Second loop: \<open>for _, input := range txn.Inputs\<close>. \<open>FromUTXO\<close> moves the referenced
  UTXO to the STXO table; its error is not returned, it only means no hit.
\<close>

fun commitInputs ::
  "('hs, 'ds) Stores \<Rightarrow> u32 \<Rightarrow> Transaction \<Rightarrow> Input list \<Rightarrow>
   ('hs, 'ds) Blockchain \<Rightarrow> nat \<Rightarrow> nat \<times> ('hs, 'ds) Blockchain" where
  "commitInputs S height txn [] bc hits = (hits, bc)"
| "commitInputs S height txn (input # rest) bc hits =
     (let outpoint = NewOutPoint (ReferTxID input) (ReferTxOutputIndex input)
      in case STXOs_FromUTXO S (DataStore bc) outpoint (Transaction.Hash txn) height of
           Inl err \<Rightarrow> commitInputs S height txn rest bc hits
         | Inr ds \<Rightarrow>
             commitInputs S height txn rest
               (bc\<lparr>DataStore := ds,
                   effects := effects bc @ [Moved_To_STXO outpoint (Transaction.Hash txn) height]\<rparr>)
               (hits + 1))"

text \<open>
  \<open>commitTxn\<close> returns \<open>(bool, error)\<close>: \<open>Inr True\<close> is \<open>(true, nil)\<close>, a false
  positive; \<open>Inr False\<close> is \<open>(false, nil)\<close>; \<open>Inl err\<close> is \<open>(false, err)\<close>.
\<close>

definition commitTxn ::
  "('hs, 'ds) Stores \<Rightarrow> u32 \<Rightarrow> Transaction \<Rightarrow> ('hs, 'ds) Blockchain \<Rightarrow>
   (error + bool) \<times> ('hs, 'ds) Blockchain" where
  "commitTxn S height txn bc =
     (case commitOutputs S height txn (enumerate 0 (Outputs txn)) bc 0 of
        (Inl err, bc1) \<Rightarrow> (Inl err, bc1)
      | (Inr hits1, bc1) \<Rightarrow>
          (case commitInputs S height txn (Inputs txn) bc1 hits1 of
             (hits, bc2) \<Rightarrow>
               if hits = 0 then (Inr True, bc2)
               else
                 (case TXNs_Put S (DataStore bc2) (ToTxn txn height) of
                    Inl err \<Rightarrow> (Inl err, bc2)
                  | Inr ds \<Rightarrow>
                      (Inr False,
                       bc2\<lparr>DataStore := ds,
                           effects := effects bc2 @ [Put_Txn (ToTxn txn height), OnTxCommit txn]\<rparr>))))"

definition CommitUnconfirmedTxn ::
  "('hs, 'ds) Stores \<Rightarrow> Transaction \<Rightarrow> ('hs, 'ds) Blockchain \<Rightarrow>
   (error + bool) \<times> ('hs, 'ds) Blockchain" where
  "CommitUnconfirmedTxn S txn bc = commitTxn S 0 txn bc"

text \<open>
  \<open>rollbackTo\<close> is a \<open>for\<close> loop with no bound of its own: it ends when a store
  reports an error or the removed header's predecessor is the fork point. \<open>None\<close>
  stands for a loop that never ends.
\<close>

partial_function (option) rollbackTo ::
  "('hs, 'ds) Stores \<Rightarrow> Uint256 \<Rightarrow> ('hs, 'ds) Blockchain \<Rightarrow>
   (error option \<times> ('hs, 'ds) Blockchain) option" where
  "rollbackTo S forkPoint bc =
     (case Headers_Rollback S (Headers bc) of
        Inl err \<Rightarrow> Some (Some err, bc)
      | Inr (removed, hs) \<Rightarrow>
          (let bc1 = bc\<lparr>Headers := hs, effects := effects bc @ [Removed_Header removed]\<rparr>
           in case DataStore_Rollback S (DataStore bc1) (Height removed) of
                Inl err \<Rightarrow> Some (Some err, bc1)
              | Inr ds \<Rightarrow>
                  (let bc2 = bc1\<lparr>DataStore := ds,
                                 effects := effects bc1 @
                                   [Rolled_Back (Height removed), OnRollback (Height removed)]\<rparr>
                   in if Previous removed = forkPoint
                      then Some (None,
                             bc2\<lparr>DataStore :=
                                   Info_SaveChainHeight S (DataStore bc2) (Height removed - 1),
                                 effects := effects bc2 @
                                   [Saved_ChainHeight (Height removed - 1)]\<rparr>)
                      else rollbackTo S forkPoint bc2)))"

declare rollbackTo.simps [code]

text \<open>
  \<open>CommitBlock\<close>, the loop over the block's transactions (\<open>fPositives\<close> is a Go
  \<open>int\<close>; it counts at most the transactions of one block).
\<close>

fun commitTxns ::
  "('hs, 'ds) Stores \<Rightarrow> u32 \<Rightarrow> Transaction list \<Rightarrow> ('hs, 'ds) Blockchain \<Rightarrow> int \<Rightarrow>
   (error + int) \<times> ('hs, 'ds) Blockchain" where
  "commitTxns S height [] bc fPositives = (Inr fPositives, bc)"
| "commitTxns S height (txn # txns) bc fPositives =
     (case commitTxn S height txn bc of
        (Inl err, bc1) \<Rightarrow> (Inl err, bc1)
      | (Inr fPositive, bc1) \<Rightarrow>
          commitTxns S height txns bc1 (if fPositive then fPositives + 1 else fPositives))"

text \<open>
  \<open>CommitBlock\<close> after the fork check: the transactions, the merkle proof, the header,
  the chain height and the block callback, in the source's order. \<open>Inl err\<close> is the
  return value \<open>(0, err)\<close>, \<open>Inr n\<close> is \<open>(n, nil)\<close>.
\<close>

definition saveBlock ::
  "('hs, 'ds) Stores \<Rightarrow> Header \<Rightarrow> Proof \<Rightarrow> Transaction list \<Rightarrow> ('hs, 'ds) Blockchain \<Rightarrow>
   (error + int) \<times> ('hs, 'ds) Blockchain" where
  "saveBlock S header mproof txns bc =
     (case commitTxns S (Height header) txns bc 0 of
        (Inl err, bc1) \<Rightarrow> (Inl err, bc1)
      | (Inr fPositives, bc1) \<Rightarrow>
          (case Proofs_Put S (DataStore bc1) mproof of
             Inl err \<Rightarrow> (Inl err, bc1)
           | Inr ds \<Rightarrow>
               (let bc2 = bc1\<lparr>DataStore := ds, effects := effects bc1 @ [Put_Proof mproof]\<rparr>
                in case Headers_Add S (Headers bc2) header of
                     Inl err \<Rightarrow> (Inl err, bc2)
                   | Inr hs \<Rightarrow>
                       (Inr fPositives,
                        bc2\<lparr>Headers := hs,
                            DataStore := Info_SaveChainHeight S (DataStore bc2) (Height header),
                            effects := effects bc2 @
                              [Added_Header header, Saved_ChainHeight (Height header),
                               OnBlockCommit header mproof txns]\<rparr>))))"

definition CommitBlock ::
  "('hs, 'ds) Stores \<Rightarrow> Header \<Rightarrow> Proof \<Rightarrow> Transaction list \<Rightarrow> ('hs, 'ds) Blockchain \<Rightarrow>
   ((error + int) \<times> ('hs, 'ds) Blockchain) option" where
  "CommitBlock S header mproof txns bc =
     (case Headers_GetTip S (Headers bc) of
        Inl err \<Rightarrow> Some (Inl err, bc)
      | Inr tip \<Rightarrow>
          if Height header < Height tip
          then
            (case rollbackTo S (Previous header) bc of
               None \<Rightarrow> None
             | Some (Some err, bc1) \<Rightarrow> Some (Inl err, bc1)
             | Some (None, bc1) \<Rightarrow> Some (saveBlock S header mproof txns bc1))
          else Some (saveBlock S header mproof txns bc))"

section \<open>Block locator\<close>

definition MaxBlockLocatorHashes :: nat where
  "MaxBlockLocatorHashes = 200"

text \<open>The closure \<open>rollback\<close> of \<open>GetBlockLocatorHashes\<close>: \<open>n\<close> steps of \<open>GetPrevious\<close>.\<close>

fun rollback ::
  "('hs, 'ds) Stores \<Rightarrow> 'hs \<Rightarrow> Header \<Rightarrow> nat \<Rightarrow> error + Header" where
  "rollback S hs parent 0 = Inr parent"
| "rollback S hs parent (Suc n) =
     (case Headers_GetPrevious S hs parent of
        Inl err \<Rightarrow> Inl err
      | Inr p \<Rightarrow> rollback S hs p n)"

text \<open>
  The \<open>for\<close> loop of \<open>GetBlockLocatorHashes\<close> with its variables \<open>step\<close>, \<open>start\<close>,
  \<open>parent\<close> and \<open>ret\<close>. \<open>step\<close> is a Go \<open>int\<close>; it doubles at most 22 times before the
  list is full, so it does not overflow.
\<close>

function locatorLoop ::
  "('hs, 'ds) Stores \<Rightarrow> 'hs \<Rightarrow> nat \<Rightarrow> nat \<Rightarrow> Header \<Rightarrow> Uint256 list \<Rightarrow> Uint256 list" where
  "locatorLoop S hs step start parent ret =
     (let step' = (if start \<ge> 9 then step * 2 else step);
          start' = (if start \<ge> 9 then 0 else start);
          ret' = ret @ [Hash parent]
      in if length ret' \<ge> MaxBlockLocatorHashes then ret'
         else
           (case rollback S hs parent step' of
              Inl err \<Rightarrow> ret'
            | Inr p \<Rightarrow> locatorLoop S hs step' (start' + 1) p ret'))"
  by pat_completeness auto
termination
  by (relation "measure (\<lambda>(S, hs, step, start, parent, ret). MaxBlockLocatorHashes - length ret)")
     (auto simp: MaxBlockLocatorHashes_def)

declare locatorLoop.simps [simp del]

definition GetBlockLocatorHashes ::
  "('hs, 'ds) Stores \<Rightarrow> ('hs, 'ds) Blockchain \<Rightarrow> Uint256 list" where
  "GetBlockLocatorHashes S bc =
     (case Headers_GetTip S (Headers bc) of
        Inl err \<Rightarrow> []
      | Inr parent \<Rightarrow> locatorLoop S (Headers bc) 1 0 parent [])"

section \<open>The request queue\<close>

text \<open>
  \<open>RequestQueue\<close> (file \<open>requestqueue.go\<close>). A channel is the list of the values its
  buffer holds, oldest first, with its capacity taken from the field \<open>size\<close> (here
  \<open>qsize\<close>); with capacity 0 it is unbuffered, and a send goes through only as a
  hand-over to a receiver that waits. A \<open>sync.Mutex\<close> is a flag that is \<open>True\<close> while
  the lock is held; a Go map is a partial function. The calls the queue makes on its
  handler, and what it prints, are collected in \<open>notices\<close>.
\<close>

type_synonym Peer = nat

datatype RequestType = BLOCK | TRANSACTION

record Request =
  peer :: "Peer option"
  hash :: Uint256
  reqType :: RequestType

record MerkleBlock =
  BlockHeader :: Header

record BlockTxsRequest =
  block :: MerkleBlock
  txRequestQueue :: "Uint256 \<rightharpoonup> Request"

datatype notice =
    SendRequest "Peer option" RequestType Uint256
  | RequestFinished "BlockTxsRequest list"
  | Println string Uint256

record RequestQueue =
  qsize :: int
  peer :: "Peer option"
  hashesQueue :: "Uint256 list"
  blocksQueue :: "Uint256 list"
  blockTxsQueue :: "Uint256 list"
  blockReqsLock :: bool
  blockRequests :: "Uint256 \<rightharpoonup> Request"
  blockTxsReqsLock :: bool
  blockTxsRequests :: "Uint256 \<rightharpoonup> BlockTxsRequest"
  blockTxs :: "Uint256 \<rightharpoonup> Uint256"
  finished :: "BlockTxsRequest list"
  notices :: "notice list"

text \<open>
  A call either returns, with its result and the state as it left it, or it blocks: it
  waits for a lock that is held, for room in a full channel or for a value from an
  empty one, in the state given. Unless another goroutine changes that, it waits
  forever. The state is the queue, or the queue with its worker where the call meets the
  worker.
\<close>

datatype ('a, 's) call_outcome = Returned 'a 's | Blocked 's

type_synonym 'a outcome = "('a, RequestQueue) call_outcome"

text \<open>
  \<open>NewRequestQueue\<close>. \<open>make(chan Uint256, n)\<close> panics for a negative \<open>n\<close>: \<open>None\<close>. The
  worker it starts with \<open>go queue.start()\<close> is the \<open>worker\<close> of the system further down.
\<close>

definition NewRequestQueue :: "int \<Rightarrow> RequestQueue option" where
  "NewRequestQueue size' =
     (if size' < 0 then None
      else Some \<lparr>qsize = size', peer = None, hashesQueue = [], blocksQueue = [],
                 blockTxsQueue = [], blockReqsLock = False, blockRequests = Map.empty,
                 blockTxsReqsLock = False, blockTxsRequests = Map.empty,
                 blockTxs = Map.empty, finished = [], notices = []\<rparr>)"

text \<open>
  Modelled from the spec: \<open>Request.Start\<close> and \<open>Request.Finish\<close>, whose code is in another
  file. \<open>Start\<close> dispatches the fetch to the peer through the handler's send capability
  and arms a timeout; \<open>Finish\<close> cancels the timer. The model carries no timers, so
  \<open>Start\<close> is the notice of the dispatch and \<open>Finish\<close> changes nothing.
\<close>

definition Request_Start :: "Request \<Rightarrow> RequestQueue \<Rightarrow> RequestQueue" where
  "Request_Start request q =
     q\<lparr>notices := notices q @
         [SendRequest (Request.peer request) (reqType request) (hash request)]\<rparr>"

text \<open>
  Modelled from the spec: \<open>FinishedReqPool.Add\<close> appends to an append-only collection.
  \<open>OnRequestFinished\<close> adds the request and hands the whole pool to the handler.
\<close>

definition OnRequestFinished :: "BlockTxsRequest \<Rightarrow> RequestQueue \<Rightarrow> RequestQueue" where
  "OnRequestFinished request q =
     (let pool = finished q @ [request]
      in q\<lparr>finished := pool, notices := notices q @ [RequestFinished pool]\<rparr>)"

text \<open>
  Modelled from the spec: \<open>BlockTxsRequest.OnTxReceived\<close>. Receiving a transaction
  finishes that transaction's request and removes it from the group; the group reports
  itself complete when empty. A transaction the group does not hold is answered with an
  error.
\<close>

definition BlockTxsRequest_OnTxReceived ::
  "Uint256 \<Rightarrow> BlockTxsRequest \<Rightarrow> (error + bool) \<times> BlockTxsRequest" where
  "BlockTxsRequest_OnTxReceived txId request =
     (case txRequestQueue request txId of
        None \<Rightarrow> (Inl (Error ''Request not exist''), request)
      | Some r \<Rightarrow>
          (let rest = (txRequestQueue request)(txId := None)
           in (Inr (rest = Map.empty), request\<lparr>txRequestQueue := rest\<rparr>)))"

text \<open>
  \<open>StartBlockRequest\<close> in its three parts. Lines 71 to 76: under \<open>blockReqsLock\<close>, is
  the hash already requested? \<open>None\<close> while the lock is held by someone else.
\<close>

definition StartBlockRequest_known :: "Uint256 \<Rightarrow> RequestQueue \<Rightarrow> bool option" where
  "StartBlockRequest_known h q =
     (if blockReqsLock q then None else Some (blockRequests q h \<noteq> None))"

text \<open>
  Line 79: \<open>queue.blocksQueue <- hash\<close>, with no lock held. \<open>None\<close> while the channel is
  full. For \<open>size = 0\<close> the channel is unbuffered and the send needs a receiver waiting at
  line 163; \<open>OnBlockReceived\<close> gets there for a registered request only, and a request
  is registered after its send, so no receiver ever waits and the send never goes
  through (\<open>unbuffered_never_registers\<close> below).
\<close>

definition StartBlockRequest_send :: "Uint256 \<Rightarrow> RequestQueue \<Rightarrow> RequestQueue option" where
  "StartBlockRequest_send h q =
     (if length (blocksQueue q) < nat (qsize q)
      then Some (q\<lparr>blocksQueue := blocksQueue q @ [h]\<rparr>) else None)"

text \<open>Lines 81 to 95: under the lock again, the request is created, registered and started.\<close>

definition StartBlockRequest_register ::
  "Peer option \<Rightarrow> Uint256 \<Rightarrow> RequestQueue \<Rightarrow> RequestQueue option" where
  "StartBlockRequest_register p h q =
     (if blockReqsLock q then None
      else
        let blockRequest = \<lparr>Request.peer = p, hash = h, reqType = BLOCK\<rparr>
        in Some (Request_Start blockRequest
                   (q\<lparr>blockRequests := (blockRequests q)(h \<mapsto> blockRequest)\<rparr>)))"

definition StartBlockRequest :: "Peer option \<Rightarrow> Uint256 \<Rightarrow> RequestQueue \<Rightarrow> unit outcome" where
  "StartBlockRequest p h q =
     (case StartBlockRequest_known h q of
        None \<Rightarrow> Blocked q
      | Some True \<Rightarrow> Returned () q
      | Some False \<Rightarrow>
          (case StartBlockRequest_send h q of
             None \<Rightarrow> Blocked q
           | Some q1 \<Rightarrow>
               (case StartBlockRequest_register p h q1 of
                  None \<Rightarrow> Blocked q1
                | Some q2 \<Rightarrow> Returned () q2)))"

text \<open>The loop of \<open>StartBlockTxsRequest\<close> over the wanted transaction ids.\<close>

fun startTxRequests ::
  "Peer option \<Rightarrow> Uint256 \<Rightarrow> Uint256 list \<Rightarrow> RequestQueue \<Rightarrow> (Uint256 \<rightharpoonup> Request) \<Rightarrow>
   RequestQueue \<times> (Uint256 \<rightharpoonup> Request)" where
  "startTxRequests p blockHash [] q txRequestQueue' = (q, txRequestQueue')"
| "startTxRequests p blockHash (txId # txIds) q txRequestQueue' =
     (let txRequest = \<lparr>Request.peer = p, hash = txId, reqType = TRANSACTION\<rparr>
      in startTxRequests p blockHash txIds
           (Request_Start txRequest (q\<lparr>blockTxs := (blockTxs q)(txId \<mapsto> blockHash)\<rparr>))
           (txRequestQueue'(txId \<mapsto> txRequest)))"

text \<open>
  \<open>StartBlockTxsRequest\<close>. Where the block already has a group the function returns at
  line 104, after \<open>Lock\<close> at line 101 and with no \<open>Unlock\<close>. The send at line 108 waits
  while \<open>blockTxsQueue\<close> is full; its receiver (line 205) needs a registered group, so for
  \<open>size = 0\<close> there is none.
\<close>

definition StartBlockTxsRequest ::
  "Peer option \<Rightarrow> MerkleBlock \<Rightarrow> Uint256 list \<Rightarrow> RequestQueue \<Rightarrow> unit outcome" where
  "StartBlockTxsRequest p blk txIds q =
     (if blockTxsReqsLock q then Blocked q
      else
        let q1 = q\<lparr>blockTxsReqsLock := True\<rparr>;
            blockHash = Hash (BlockHeader blk)
        in if blockTxsRequests q1 blockHash \<noteq> None then Returned () q1
           else
             let q2 = q1\<lparr>blockTxsReqsLock := False\<rparr>
             in if length (blockTxsQueue q2) < nat (qsize q2)
                then
                  let q3 = q2\<lparr>blockTxsQueue := blockTxsQueue q2 @ [blockHash],
                             blockTxsReqsLock := True\<rparr>
                  in case startTxRequests p blockHash txIds q3 Map.empty of
                       (q4, txRequestQueue') \<Rightarrow>
                         Returned ()
                           (q4\<lparr>blockTxsRequests :=
                                 (blockTxsRequests q4)
                                   (blockHash \<mapsto> \<lparr>block = blk, txRequestQueue = txRequestQueue'\<rparr>),
                               blockTxsReqsLock := False\<rparr>)
                else Blocked q2)"

definition IsRunning :: "RequestQueue \<Rightarrow> bool" where
  "IsRunning q =
     (length (hashesQueue q) > 0 \<or> length (blocksQueue q) > 0 \<or> length (blockTxsQueue q) > 0)"

text \<open>
  \<open>OnBlockReceived\<close> holds \<open>blockReqsLock\<close> until it returns (\<open>defer\<close>); where it blocks,
  the lock stays held.
\<close>

definition OnBlockReceived ::
  "MerkleBlock \<Rightarrow> Uint256 list \<Rightarrow> RequestQueue \<Rightarrow> error option outcome" where
  "OnBlockReceived blk txIds q =
     (if blockReqsLock q then Blocked q
      else
        let q1 = q\<lparr>blockReqsLock := True\<rparr>;
            blockHash = Hash (BlockHeader blk)
        in case blockRequests q1 blockHash of
             None \<Rightarrow>
               Returned None
                 (q1\<lparr>notices := notices q1 @ [Println ''Unknown block received: '' blockHash],
                     blockReqsLock := False\<rparr>)
           | Some request \<Rightarrow>
               (let q2 = q1\<lparr>blockRequests := (blockRequests q1)(blockHash := None)\<rparr>
                in case blocksQueue q2 of
                     [] \<Rightarrow> Blocked q2
                   | first # rest \<Rightarrow>
                       (let q3 = q2\<lparr>blocksQueue := rest\<rparr>
                        in if length txIds = 0
                           then Returned None
                                  ((OnRequestFinished \<lparr>block = blk, txRequestQueue = Map.empty\<rparr> q3)
                                     \<lparr>blockReqsLock := False\<rparr>)
                           else
                             (case StartBlockTxsRequest (Request.peer request) blk txIds q3 of
                                Blocked q4 \<Rightarrow> Blocked q4
                              | Returned u q4 \<Rightarrow> Returned None (q4\<lparr>blockReqsLock := False\<rparr>)))))"

text \<open>\<open>OnTxReceived\<close> holds \<open>blockTxsReqsLock\<close> until it returns (\<open>defer\<close>).\<close>

definition OnTxReceived :: "Transaction \<Rightarrow> RequestQueue \<Rightarrow> error option outcome" where
  "OnTxReceived tx q =
     (if blockTxsReqsLock q then Blocked q
      else
        let q1 = q\<lparr>blockTxsReqsLock := True\<rparr>;
            txId = Transaction.Hash tx
        in case blockTxs q1 txId of
             None \<Rightarrow>
               Returned None
                 (q1\<lparr>notices := notices q1 @ [Println ''Unknown transaction received: '' txId],
                     blockTxsReqsLock := False\<rparr>)
           | Some blockHash \<Rightarrow>
               (let q2 = q1\<lparr>blockTxs := (blockTxs q1)(txId := None)\<rparr>
                in case blockTxsRequests q2 blockHash of
                     None \<Rightarrow>
                       Returned (Some (Error ''Request not exist with id: ''))
                         (q2\<lparr>blockTxsReqsLock := False\<rparr>)
                   | Some blockTxsRequest \<Rightarrow>
                       (case BlockTxsRequest_OnTxReceived txId blockTxsRequest of
                          (Inl err, request) \<Rightarrow>
                            Returned (Some err)
                              (q2\<lparr>blockTxsRequests := (blockTxsRequests q2)(blockHash \<mapsto> request),
                                  blockTxsReqsLock := False\<rparr>)
                        | (Inr complete, request) \<Rightarrow>
                            (let q3 = q2\<lparr>blockTxsRequests :=
                                           (blockTxsRequests q2)(blockHash \<mapsto> request)\<rparr>
                             in if complete
                                then
                                  (let q4 = q3\<lparr>blockTxsRequests :=
                                                 (blockTxsRequests q3)(blockHash := None)\<rparr>
                                   in case blockTxsQueue q4 of
                                        [] \<Rightarrow> Blocked q4
                                      | first # rest \<Rightarrow>
                                          Returned None
                                            ((OnRequestFinished request (q4\<lparr>blockTxsQueue := rest\<rparr>))
                                               \<lparr>blockTxsReqsLock := False\<rparr>))
                                else Returned None (q3\<lparr>blockTxsReqsLock := False\<rparr>)))))"

text \<open>
  \<open>Clear\<close> empties the three channels, then the two request maps, each under its lock.
  It does not touch \<open>blockTxs\<close>.
\<close>

definition Clear :: "RequestQueue \<Rightarrow> unit outcome" where
  "Clear q =
     (let q1 = q\<lparr>hashesQueue := [], blocksQueue := [], blockTxsQueue := []\<rparr>
      in if blockReqsLock q1 then Blocked q1
         else
           let q2 = q1\<lparr>blockRequests := Map.empty\<rparr>
           in if blockTxsReqsLock q2 then Blocked q2
              else Returned () (q2\<lparr>blockTxsRequests := Map.empty\<rparr>))"

subsection \<open>The queue with its worker\<close>

text \<open>
  The worker started by \<open>NewRequestQueue\<close> runs \<open>start\<close>: it takes a hash from
  \<open>hashesQueue\<close> and runs \<open>StartBlockRequest\<close> on it, which holds no lock between its
  three parts, so calls of other goroutines can come in between. \<open>worker\<close> says where
  the worker stands. A step of the system is the worker's next part, or a whole call
  of another goroutine that returns without waiting.
\<close>

datatype worker =
    Idle
  | Checking "Peer option" Uint256
  | Sending "Peer option" Uint256
  | Registering "Peer option" Uint256

record System =
  queue :: RequestQueue
  worker :: worker

datatype action =
    Worker
  | Call_PushHashes Peer "Uint256 list"
  | Call_OnBlockReceived MerkleBlock "Uint256 list"
  | Call_OnTxReceived Transaction
  | Call_Clear

fun returned :: "('a, 's) call_outcome \<Rightarrow> 's option" where
  "returned (Returned r q) = Some q"
| "returned (Blocked q) = None"

text \<open>
  Line 66, \<open>queue.hashesQueue <- hash\<close>. The receiver of \<open>hashesQueue\<close> is the worker
  (line 57). Where the buffer has room the hash is queued. Where it has none and the
  worker waits at its receive, which needs an empty buffer and so happens for \<open>size = 0\<close>
  only, when the channel is unbuffered, the hash is handed to the worker, which goes on
  to \<open>StartBlockRequest(queue.peer, hash)\<close>. Otherwise the sender waits: \<open>None\<close>.
\<close>

definition hashesQueue_send :: "Uint256 \<Rightarrow> System \<Rightarrow> System option" where
  "hashesQueue_send h s =
     (if length (hashesQueue (queue s)) < nat (qsize (queue s) * 2)
      then Some (s\<lparr>queue := (queue s)\<lparr>hashesQueue := hashesQueue (queue s) @ [h]\<rparr>\<rparr>)
      else if worker s = Idle \<and> hashesQueue (queue s) = []
      then Some (s\<lparr>worker := Checking (RequestQueue.peer (queue s)) h\<rparr>)
      else None)"

text \<open>The loop of \<open>PushHashes\<close>: \<open>for _, hash := range hashes\<close>.\<close>

fun pushLoop :: "Uint256 list \<Rightarrow> System \<Rightarrow> (unit, System) call_outcome" where
  "pushLoop [] s = Returned () s"
| "pushLoop (h # hashes) s =
     (case hashesQueue_send h s of
        None \<Rightarrow> Blocked s
      | Some s1 \<Rightarrow> pushLoop hashes s1)"

text \<open>
  \<open>PushHashes\<close> sets \<open>queue.peer\<close> (line 64) and sends the hashes one by one. Its state
  is the queue with the worker, the receiver of its sends.
\<close>

definition PushHashes :: "Peer \<Rightarrow> Uint256 list \<Rightarrow> System \<Rightarrow> (unit, System) call_outcome" where
  "PushHashes p hashes s = pushLoop hashes (s\<lparr>queue := (queue s)\<lparr>peer := Some p\<rparr>\<rparr>)"

text \<open>
  The worker's next part. Taking a hash from \<open>hashesQueue\<close> it calls
  \<open>StartBlockRequest(queue.peer, hash)\<close>, so the peer is read then.
\<close>

definition worker_step :: "System \<Rightarrow> System option" where
  "worker_step s =
     (case worker s of
        Idle \<Rightarrow>
          (case hashesQueue (queue s) of
             [] \<Rightarrow> None
           | h # rest \<Rightarrow>
               Some (s\<lparr>queue := (queue s)\<lparr>hashesQueue := rest\<rparr>,
                       worker := Checking (RequestQueue.peer (queue s)) h\<rparr>))
      | Checking p h \<Rightarrow>
          (case StartBlockRequest_known h (queue s) of
             None \<Rightarrow> None
           | Some True \<Rightarrow> Some (s\<lparr>worker := Idle\<rparr>)
           | Some False \<Rightarrow> Some (s\<lparr>worker := Sending p h\<rparr>))
      | Sending p h \<Rightarrow>
          (case StartBlockRequest_send h (queue s) of
             None \<Rightarrow> None
           | Some q \<Rightarrow> Some (s\<lparr>queue := q, worker := Registering p h\<rparr>))
      | Registering p h \<Rightarrow>
          (case StartBlockRequest_register p h (queue s) of
             None \<Rightarrow> None
           | Some q \<Rightarrow> Some (s\<lparr>queue := q, worker := Idle\<rparr>)))"

text \<open>
  A step of the system: the worker's next part, or a call of another goroutine that runs
  to its return. \<open>None\<close> where the step cannot be taken now.
\<close>

fun sys_step :: "action \<Rightarrow> System \<Rightarrow> System option" where
  "sys_step Worker s = worker_step s"
| "sys_step (Call_PushHashes p hashes) s = returned (PushHashes p hashes s)"
| "sys_step (Call_OnBlockReceived blk txIds) s =
     map_option (\<lambda>q. s\<lparr>queue := q\<rparr>) (returned (OnBlockReceived blk txIds (queue s)))"
| "sys_step (Call_OnTxReceived tx) s =
     map_option (\<lambda>q. s\<lparr>queue := q\<rparr>) (returned (OnTxReceived tx (queue s)))"
| "sys_step Call_Clear s =
     map_option (\<lambda>q. s\<lparr>queue := q\<rparr>) (returned (Clear (queue s)))"

fun sys_run :: "action list \<Rightarrow> System \<Rightarrow> System option" where
  "sys_run [] s = Some s"
| "sys_run (a # as) s = (case sys_step a s of None \<Rightarrow> None | Some s1 \<Rightarrow> sys_run as s1)"

text \<open>The three channels hold no more than their capacities.\<close>

definition within_capacity :: "RequestQueue \<Rightarrow> bool" where
  "within_capacity q =
     (length (hashesQueue q) \<le> nat (qsize q * 2) \<and>
      length (blocksQueue q) \<le> nat (qsize q) \<and>
      length (blockTxsQueue q) \<le> nat (qsize q))"

text \<open>
  With \<open>size = 0\<close> the three channels are unbuffered. No block request is registered
  then, no slot is taken and the worker is never past its send.
\<close>

definition unbuffered :: "System \<Rightarrow> bool" where
  "unbuffered s =
     (qsize (queue s) = 0 \<and> blockRequests (queue s) = Map.empty \<and>
      blocksQueue (queue s) = [] \<and>
      (case worker s of Registering p h \<Rightarrow> False | _ \<Rightarrow> True))"

definition newSystem :: "int \<Rightarrow> System option" where
  "newSystem size' = map_option (\<lambda>q. \<lparr>queue = q, worker = Idle\<rparr>) (NewRequestQueue size')"

section \<open>Notions used in the properties\<close>

text \<open>
  A transaction is a pure false positive at a data store when none of its outputs pays
  a watched address and \<open>FromUTXO\<close> fails for every one of its inputs.
\<close>

definition zero_hits :: "('hs, 'ds) Stores \<Rightarrow> u32 \<Rightarrow> Transaction \<Rightarrow> 'ds \<Rightarrow> bool" where
  "zero_hits S height txn ds =
     (list_all (\<lambda>output. \<not> Addrs_ContainAddr S ds (ProgramHash output)) (Outputs txn) \<and>
      list_all
        (\<lambda>input. isl (STXOs_FromUTXO S ds
                         (NewOutPoint (ReferTxID input) (ReferTxOutputIndex input))
                         (Transaction.Hash txn) height))
        (Inputs txn))"

text \<open>
  The number of false positives among the transactions of a block, each judged at the
  data store it is committed to.
\<close>

fun falsePositives ::
  "('hs, 'ds) Stores \<Rightarrow> u32 \<Rightarrow> Transaction list \<Rightarrow> ('hs, 'ds) Blockchain \<Rightarrow> nat" where
  "falsePositives S height [] bc = 0"
| "falsePositives S height (txn # txns) bc =
     (if zero_hits S height txn (DataStore bc) then 1 else 0) +
     falsePositives S height txns (snd (commitTxn S height txn bc))"

text \<open>The effects by kind: of a transaction commit, of a rollback, of saving a block.\<close>

fun is_txn_effect :: "effect \<Rightarrow> bool" where
  "is_txn_effect (Put_UTXO a u) = True"
| "is_txn_effect (Moved_To_STXO op t h) = True"
| "is_txn_effect (Put_Txn t) = True"
| "is_txn_effect (OnTxCommit t) = True"
| "is_txn_effect e = False"

fun is_rollback_effect :: "effect \<Rightarrow> bool" where
  "is_rollback_effect (Removed_Header h) = True"
| "is_rollback_effect (Rolled_Back h) = True"
| "is_rollback_effect (OnRollback h) = True"
| "is_rollback_effect e = False"

text \<open>What one turn of the rollback loop does for a removed header, and a run of them.\<close>

definition rollback_effects :: "Header list \<Rightarrow> effect list" where
  "rollback_effects removed =
     concat (map (\<lambda>r. [Removed_Header r, Rolled_Back (Height r), OnRollback (Height r)]) removed)"

text \<open>
  The write a watched output gets in \<open>commitTxn\<close>, and the move an input asks for.
\<close>

definition utxo_put :: "u32 \<Rightarrow> Transaction \<Rightarrow> nat \<times> Output \<Rightarrow> effect" where
  "utxo_put height txn io =
     Put_UTXO (ProgramHash (snd io))
       (ToUTXO (Transaction.Hash txn) height (fst io) (Output.Value (snd io))
          (if TxType txn = CoinBase then height + 100 else 0))"

definition stxo_move :: "u32 \<Rightarrow> Transaction \<Rightarrow> Input \<Rightarrow> effect" where
  "stxo_move height txn input =
     Moved_To_STXO (NewOutPoint (ReferTxID input) (ReferTxOutputIndex input))
       (Transaction.Hash txn) height"

text \<open>
  What an effect did to the data store, and a log of effects replayed on a data store:
  the store after every write of the log, in order. Effects on the headers store and
  callbacks leave the data store alone.
\<close>

fun apply_effect :: "('hs, 'ds) Stores \<Rightarrow> effect \<Rightarrow> 'ds \<Rightarrow> 'ds option" where
  "apply_effect S (Put_UTXO a u) ds = (case UTXOs_Put S ds a u of Inl err \<Rightarrow> None | Inr ds' \<Rightarrow> Some ds')"
| "apply_effect S (Moved_To_STXO op t h) ds =
     (case STXOs_FromUTXO S ds op t h of Inl err \<Rightarrow> None | Inr ds' \<Rightarrow> Some ds')"
| "apply_effect S (Put_Txn t) ds = (case TXNs_Put S ds t of Inl err \<Rightarrow> None | Inr ds' \<Rightarrow> Some ds')"
| "apply_effect S (Put_Proof p) ds = (case Proofs_Put S ds p of Inl err \<Rightarrow> None | Inr ds' \<Rightarrow> Some ds')"
| "apply_effect S (Rolled_Back h) ds =
     (case DataStore_Rollback S ds h of Inl err \<Rightarrow> None | Inr ds' \<Rightarrow> Some ds')"
| "apply_effect S (Saved_ChainHeight h) ds = Some (Info_SaveChainHeight S ds h)"
| "apply_effect S (Added_Header h) ds = Some ds"
| "apply_effect S (Removed_Header h) ds = Some ds"
| "apply_effect S (OnTxCommit t) ds = Some ds"
| "apply_effect S (OnBlockCommit h p ts) ds = Some ds"
| "apply_effect S (OnRollback h) ds = Some ds"

fun replay :: "('hs, 'ds) Stores \<Rightarrow> effect list \<Rightarrow> 'ds \<Rightarrow> 'ds option" where
  "replay S [] ds = Some ds"
| "replay S (e # es) ds =
     (case apply_effect S e ds of None \<Rightarrow> None | Some ds' \<Rightarrow> replay S es ds')"

text \<open>
  The locator's walk in the spec's words: after the hash with index \<open>i\<close> the step is
  \<open>2 ^ (i div 9)\<close>, so the hash with index \<open>i\<close> lies \<open>locator_offset i\<close> headers behind
  the tip.
\<close>

definition locator_step :: "nat \<Rightarrow> nat" where
  "locator_step i = 2 ^ (i div 9)"

definition locator_offset :: "nat \<Rightarrow> nat" where
  "locator_offset i = (\<Sum>k < i. locator_step k)"

section \<open>Stores for the examples\<close>

text \<open>
  An in-memory implementation of the two store interfaces, for evaluating the
  operations on concrete chains. The headers store is the list of headers, tip first;
  it holds at most \<open>hcap\<close> headers, and every table of the data store at most \<open>dcap\<close>
  rows: a write beyond that fails, as a full disk would.
\<close>

record MemStore =
  mem_addrs :: "Uint168 list"
  mem_utxos :: "(Uint168 \<times> UTXO) list"
  mem_stxos :: "(Uint168 \<times> UTXO \<times> Uint256 \<times> u32) list"
  mem_txns :: "Txn list"
  mem_proofs :: "Proof list"
  mem_chainHeight :: u32

definition mem_GetTip :: "Header list \<Rightarrow> error + Header" where
  "mem_GetTip hs = (case hs of [] \<Rightarrow> Inl (Error ''no tip'') | h # rest \<Rightarrow> Inr h)"

definition mem_GetPrevious :: "Header list \<Rightarrow> Header \<Rightarrow> error + Header" where
  "mem_GetPrevious hs header =
     (case find (\<lambda>h. Hash h = Previous header) hs of
        None \<Rightarrow> Inl (Error ''no previous header'')
      | Some h \<Rightarrow> Inr h)"

definition mem_Add :: "nat \<Rightarrow> Header list \<Rightarrow> Header \<Rightarrow> error + Header list" where
  "mem_Add hcap hs header =
     (if length hs < hcap then Inr (header # hs) else Inl (Error ''headers store full''))"

definition mem_Rollback :: "Header list \<Rightarrow> error + Header \<times> Header list" where
  "mem_Rollback hs = (case hs of [] \<Rightarrow> Inl (Error ''no tip'') | h # rest \<Rightarrow> Inr (h, rest))"

definition mem_UTXOs_Put :: "nat \<Rightarrow> MemStore \<Rightarrow> Uint168 \<Rightarrow> UTXO \<Rightarrow> error + MemStore" where
  "mem_UTXOs_Put dcap ds addr utxo =
     (if length (mem_utxos ds) < dcap then Inr (ds\<lparr>mem_utxos := mem_utxos ds @ [(addr, utxo)]\<rparr>)
      else Inl (Error ''utxo table full''))"

definition mem_FromUTXO :: "MemStore \<Rightarrow> OutPoint \<Rightarrow> Uint256 \<Rightarrow> u32 \<Rightarrow> error + MemStore" where
  "mem_FromUTXO ds outpoint txId height =
     (case find (\<lambda>(addr, utxo). Op utxo = outpoint) (mem_utxos ds) of
        None \<Rightarrow> Inl (Error ''no such utxo'')
      | Some (addr, utxo) \<Rightarrow>
          Inr (ds\<lparr>mem_utxos := filter (\<lambda>(addr, utxo). Op utxo \<noteq> outpoint) (mem_utxos ds),
                  mem_stxos := mem_stxos ds @ [(addr, utxo, txId, height)]\<rparr>))"

definition mem_TXNs_Put :: "nat \<Rightarrow> MemStore \<Rightarrow> Txn \<Rightarrow> error + MemStore" where
  "mem_TXNs_Put dcap ds txn =
     (if length (mem_txns ds) < dcap then Inr (ds\<lparr>mem_txns := mem_txns ds @ [txn]\<rparr>)
      else Inl (Error ''txn table full''))"

definition mem_Proofs_Put :: "nat \<Rightarrow> MemStore \<Rightarrow> Proof \<Rightarrow> error + MemStore" where
  "mem_Proofs_Put dcap ds mproof =
     (if length (mem_proofs ds) < dcap then Inr (ds\<lparr>mem_proofs := mem_proofs ds @ [mproof]\<rparr>)
      else Inl (Error ''proof table full''))"

definition mem_DataStore_Rollback :: "MemStore \<Rightarrow> u32 \<Rightarrow> error + MemStore" where
  "mem_DataStore_Rollback ds height =
     Inr (ds\<lparr>mem_utxos :=
               filter (\<lambda>(addr, utxo). AtHeight utxo \<noteq> height) (mem_utxos ds) @
               map (\<lambda>(addr, utxo, txId, h). (addr, utxo))
                 (filter (\<lambda>(addr, utxo, txId, h). h = height \<and> AtHeight utxo \<noteq> height) (mem_stxos ds)),
             mem_stxos := filter (\<lambda>(addr, utxo, txId, h). h \<noteq> height) (mem_stxos ds),
             mem_txns := filter (\<lambda>txn. Txn.Height txn \<noteq> height) (mem_txns ds)\<rparr>)"

definition memStores :: "nat \<Rightarrow> nat \<Rightarrow> (Header list, MemStore) Stores" where
  "memStores hcap dcap =
     \<lparr>Headers_GetTip = mem_GetTip,
      Headers_GetPrevious = mem_GetPrevious,
      Headers_Add = mem_Add hcap,
      Headers_Rollback = mem_Rollback,
      Addrs_ContainAddr = (\<lambda>ds addr. addr \<in> set (mem_addrs ds)),
      UTXOs_Put = mem_UTXOs_Put dcap,
      STXOs_FromUTXO = mem_FromUTXO,
      TXNs_Put = mem_TXNs_Put dcap,
      Proofs_Put = mem_Proofs_Put dcap,
      DataStore_Rollback = mem_DataStore_Rollback,
      Info_SaveChainHeight = (\<lambda>ds height. ds\<lparr>mem_chainHeight := height\<rparr>)\<rparr>"

text \<open>A chain of three headers, a watched address and some transactions.\<close>

definition hashN :: "u8 \<Rightarrow> Uint256" where
  "hashN n = replicate 31 0 @ [n]"

definition exHeader :: "u32 \<Rightarrow> u8 \<Rightarrow> u8 \<Rightarrow> Header" where
  "exHeader h own prev =
     \<lparr>Height = h, Previous = hashN prev, Bits = 0x1d00ffff,
      AuxPow_ParBlockHeader_Hash = hashN 0, Hash = hashN own\<rparr>"

definition exAddr :: Uint168 where
  "exAddr = replicate 21 7"

definition exEmptyStore :: MemStore where
  "exEmptyStore = \<lparr>mem_addrs = [exAddr], mem_utxos = [], mem_stxos = [], mem_txns = [], mem_proofs = [], mem_chainHeight = 2\<rparr>"

definition exChain :: "(Header list, MemStore) Blockchain" where
  "exChain =
     \<lparr>state = WAITING,
      Headers = [exHeader 2 12 11, exHeader 1 11 10, exHeader 0 10 0],
      DataStore = exEmptyStore,
      effects = []\<rparr>"

definition exProof :: Proof where
  "exProof = \<lparr>BlockHash = hashN 13, Hashes = []\<rparr>"

text \<open>
  \<open>exForeignTx\<close> pays an address that is not watched and spends an outpoint the wallet
  does not hold; \<open>exCoinbase\<close> pays the watched address.
\<close>

definition exForeignTx :: Transaction where
  "exForeignTx =
     \<lparr>TxType = TransferAsset,
      Outputs = [\<lparr>ProgramHash = replicate 21 9, Value = 5\<rparr>],
      Inputs = [\<lparr>ReferTxID = hashN 99, ReferTxOutputIndex = 0, Sequence = 0\<rparr>],
      Unsigned = [1], Hash = hashN 21\<rparr>"

definition exCoinbase :: Transaction where
  "exCoinbase =
     \<lparr>TxType = CoinBase,
      Outputs = [\<lparr>ProgramHash = exAddr, Value = 5000\<rparr>],
      Inputs = [],
      Unsigned = [2], Hash = hashN 22\<rparr>"

text \<open>A chain of fourteen headers, heights 13 down to 0, with hashes 33 down to 20.\<close>

definition exLongChain :: "(Header list, MemStore) Blockchain" where
  "exLongChain =
     exChain\<lparr>Headers :=
       map (\<lambda>i. exHeader (of_nat i) (of_nat (20 + i)) (of_nat (19 + i))) (rev [0..<14])\<rparr>"

text \<open>\<open>exTwoOutputs\<close> pays the watched address twice.\<close>

definition exTwoOutputs :: Transaction where
  "exTwoOutputs =
     \<lparr>TxType = TransferAsset,
      Outputs = [\<lparr>ProgramHash = exAddr, Value = 5\<rparr>, \<lparr>ProgramHash = exAddr, Value = 6\<rparr>],
      Inputs = [],
      Unsigned = [3], Hash = hashN 23\<rparr>"

text \<open>A merkle block with hash 50, for the request queue.\<close>

definition exBlock :: MerkleBlock where
  "exBlock = \<lparr>BlockHeader = exHeader 3 50 12\<rparr>"


section \<open>Properties\<close>

subsection \<open>Evaluating the examples\<close>

lemma hashN_eq [simp]: "(hashN a = hashN b) = (a = b)"
  by (simp add: hashN_def)

lemmas mem_defs = memStores_def mem_GetTip_def mem_GetPrevious_def mem_Add_def mem_Rollback_def
  mem_UTXOs_Put_def mem_FromUTXO_def mem_TXNs_Put_def mem_Proofs_Put_def mem_DataStore_Rollback_def

lemmas ex_defs = exHeader_def exAddr_def exEmptyStore_def exChain_def exProof_def exForeignTx_def
  exCoinbase_def exTwoOutputs_def exLongChain_def

lemmas commit_defs = commitTxn_def NewOutPoint_def ToUTXO_def ToTxn_def enumerate_eq_zip Let_def


subsection \<open>Compact difficulty bits\<close>

lemma compact_mantissa_word:
  "uint (compact AND (0x007fffff :: u32)) = compact_mantissa compact"
proof -
  have "(0x007fffff :: u32) = mask 23"
    by (simp add: mask_eq_exp_minus_1)
  then have "compact AND (0x007fffff :: u32) = take_bit 23 compact"
    by (simp only: take_bit_eq_mask)
  then have "uint (compact AND (0x007fffff :: u32)) = take_bit 23 (uint compact)"
    by (simp only: unsigned_take_bit_eq)
  then show ?thesis
    by (simp only: compact_mantissa_def take_bit_eq_mod)
qed

lemma compact_sign_word:
  "(compact AND (0x00800000 :: u32) \<noteq> 0) = bit compact 23"
proof -
  have "(0x00800000 :: u32) = 2 ^ 23" by simp
  then show ?thesis
    by (simp only: and_exp_eq_0_iff_not_bit) simp
qed

lemma compact_exponent_word:
  "unat (drop_bit 24 (compact :: u32)) = compact_exponent compact"
proof -
  have "unat (drop_bit 24 compact) = drop_bit 24 (unat compact)"
    by (simp only: unat_drop_bit_eq)
  then show ?thesis
    by (simp only: compact_exponent_def drop_bit_eq_div)
qed

lemma compact_shift_right:
  "uint (drop_bit n (compact AND (0x007fffff :: u32))) = compact_mantissa compact div 2 ^ n"
proof -
  have "uint (drop_bit n (compact AND (0x007fffff :: u32))) = drop_bit n (uint (compact AND (0x007fffff :: u32)))"
    by (simp only: unsigned_drop_bit_eq unsigned_take_bit_eq [symmetric] take_bit_length_eq)
  then show ?thesis
    by (simp only: compact_mantissa_word drop_bit_eq_div)
qed

text \<open>
  C9. For every 32-bit compact value, \<open>CompactToBig\<close> is the sign times the shifted
  mantissa: the mantissa is the low 23 bits, the sign is bit 23, the exponent is the top
  8 bits; for an exponent of at most 3 the mantissa is shifted right by
  \<open>8 * (3 - exponent)\<close> bits (a truncating division), otherwise left by
  \<open>8 * (exponent - 3)\<close> bits, and the result is negated exactly when bit 23 is set.
\<close>

theorem CompactToBig_spec: "CompactToBig compact = compact_spec compact"
  unfolding CompactToBig_def compact_spec_def Let_def
  by (simp only: compact_sign_word compact_exponent_word compact_shift_right compact_mantissa_word push_bit_eq_mult compact_sign_def) simp

subsection \<open>Proof of work\<close>

lemma length_reverseLoop: "length (reverseLoop i buf) = length buf"
proof (induction i buf rule: reverseLoop.induct)
  case (1 i buf)
  show ?case
  proof (cases "i < length buf div 2")
    case True
    with "1.IH" show ?thesis by (subst reverseLoop.simps) simp
  next
    case False
    then show ?thesis by (subst reverseLoop.simps) simp
  qed
qed

lemma nth_reverseLoop:
  "i \<le> length buf div 2 \<Longrightarrow> j < length buf \<Longrightarrow>
   reverseLoop i buf ! j =
     (if i \<le> j \<and> j < length buf - i then buf ! (length buf - 1 - j) else buf ! j)"
proof (induction i buf arbitrary: j rule: reverseLoop.induct)
  case (1 i buf)
  define n where "n = length buf"
  define buf' where "buf' = buf[i := buf ! (n - 1 - i), n - 1 - i := buf ! i]"
  have j: "j < n" using "1.prems" by (simp add: n_def)
  show ?case
  proof (cases "i < n div 2")
    case True
    have len: "length buf' = n" by (simp add: buf'_def n_def)
    have step: "reverseLoop i buf = reverseLoop (i + 1) buf'"
      using True by (subst reverseLoop.simps) (simp add: buf'_def n_def)
    have "reverseLoop (i + 1) buf' ! j =
      (if i + 1 \<le> j \<and> j < length buf' - (i + 1) then buf' ! (length buf' - 1 - j) else buf' ! j)"
      unfolding buf'_def n_def
      by (rule "1.IH") (use True j in \<open>simp_all add: n_def\<close>)
    then have ih: "reverseLoop i buf ! j =
      (if i + 1 \<le> j \<and> j < n - (i + 1) then buf' ! (n - 1 - j) else buf' ! j)"
      by (simp only: step len)
    have lt: "i < n" "n - 1 - i < n" using True by arith+
    have nth_i: "buf' ! i = buf ! (n - 1 - i)"
      using True lt by (simp add: buf'_def n_def nth_list_update)
    have nth_m: "buf' ! (n - 1 - i) = buf ! i"
      using lt by (simp add: buf'_def n_def)
    have nth_o: "buf' ! k = buf ! k" if "k \<noteq> i" "k \<noteq> n - 1 - i" for k
      using that by (simp add: buf'_def)
    consider (inner) "i + 1 \<le> j" "j < n - (i + 1)"
      | (left) "j = i" | (right) "j = n - 1 - i" "j \<noteq> i"
      | (outer) "j < i \<or> n - i \<le> j"
      using j by arith
    then have "reverseLoop i buf ! j =
      (if i \<le> j \<and> j < n - i then buf ! (n - 1 - j) else buf ! j)"
    proof cases
      case inner
      then have "n - 1 - j \<noteq> i" "n - 1 - j \<noteq> n - 1 - i" by arith+
      then have "buf' ! (n - 1 - j) = buf ! (n - 1 - j)" by (rule nth_o)
      moreover have "i \<le> j \<and> j < n - i" using inner by arith
      ultimately show ?thesis using ih inner by simp
    next
      case left
      have "\<not> (i + 1 \<le> j \<and> j < n - (i + 1))" using left by arith
      moreover have "i \<le> j \<and> j < n - i" using left True by arith
      ultimately show ?thesis using ih nth_i left by simp
    next
      case right
      have "\<not> (i + 1 \<le> j \<and> j < n - (i + 1))" using right True by arith
      moreover have "i \<le> j \<and> j < n - i" using right lt True by arith
      moreover have "n - 1 - j = i" using right lt True by arith
      ultimately show ?thesis using ih nth_m right by simp
    next
      case outer
      have a: "\<not> (i + 1 \<le> j \<and> j < n - (i + 1))" using outer by arith
      have b: "\<not> (i \<le> j \<and> j < n - i)" using outer by arith
      have "j \<noteq> i" "j \<noteq> n - 1 - i" using outer lt True by arith+
      then have "buf' ! j = buf ! j" by (rule nth_o)
      with ih a b show ?thesis by (simp only: if_False)
    qed
    then show ?thesis by (simp only: n_def)
  next
    case False
    with "1.prems" have i: "i = n div 2" by (simp add: n_def)
    have r: "reverseLoop i buf = buf"
      using False by (subst reverseLoop.simps) (simp add: n_def)
    have "n - 1 - j = j" if "i \<le> j \<and> j < n - i" using that i by arith
    then show ?thesis using r by (auto simp: n_def)
  qed
qed

lemma reverseLoop_rev: "reverseLoop 0 buf = rev buf"
proof (rule nth_equalityI)
  show "length (reverseLoop 0 buf) = length (rev buf)"
    by (simp add: length_reverseLoop)
next
  fix j assume "j < length (reverseLoop 0 buf)"
  then have j: "j < length buf" by (simp add: length_reverseLoop)
  then have "reverseLoop 0 buf ! j = buf ! (length buf - 1 - j)"
    by (simp add: nth_reverseLoop)
  also have "\<dots> = rev buf ! j" using j by (simp add: rev_nth)
  finally show "reverseLoop 0 buf ! j = rev buf ! j" .
qed

lemma foldl_SetBytes_snoc: "SetBytes (bs @ [b]) = SetBytes bs * 256 + uint b"
  by (simp add: SetBytes_def)

lemma big_endian_snoc: "big_endian (bs @ [b]) = big_endian bs * 256 + uint b"
proof -
  have "(\<Sum>i < length bs. uint ((bs @ [b]) ! i) * 256 ^ (length bs - i))
      = (\<Sum>i < length bs. (uint (bs ! i) * 256 ^ (length bs - 1 - i)) * 256)"
  proof (rule sum.cong)
    fix i assume "i \<in> {..<length bs}"
    then have i: "i < length bs" by simp
    then have "length bs - i = Suc (length bs - 1 - i)" by arith
    then show "uint ((bs @ [b]) ! i) * 256 ^ (length bs - i) = (uint (bs ! i) * 256 ^ (length bs - 1 - i)) * 256"
      using i by (simp add: nth_append)
  qed simp
  then show ?thesis
    by (simp add: big_endian_def sum_distrib_right)
qed

lemma SetBytes_big_endian: "SetBytes bs = big_endian bs"
proof (induction bs rule: rev_induct)
  case Nil
  show ?case by (simp add: SetBytes_def big_endian_def)
next
  case (snoc b bs)
  then show ?case by (simp only: foldl_SetBytes_snoc big_endian_snoc)
qed

lemma HashToBig_rev: "HashToBig h = big_endian (rev h)"
  by (simp only: HashToBig_def reverseLoop_rev SetBytes_big_endian)


lemma PowLimit_value: "PowLimit = 2 ^ 255 - 1"
  by (simp add: PowLimit_def push_bit_eq_mult)

text \<open>
  C8. \<open>CheckProofOfWork\<close> returns an error exactly when the target decoded from the
  compact bits is at most 0, or exceeds \<open>2 ^ 255 - 1\<close>, or the auxiliary block hash,
  byte-reversed and read as a big-endian number, exceeds the target; and the chain is
  left as it was in either outcome.
\<close>

theorem CheckProofOfWork_error_iff:
  "(fst (CheckProofOfWork bc header) \<noteq> None) =
     (CompactToBig (Bits header) \<le> 0
      \<or> CompactToBig (Bits header) > 2 ^ 255 - 1
      \<or> big_endian (rev (AuxPow_ParBlockHeader_Hash header)) > CompactToBig (Bits header))
   \<and> snd (CheckProofOfWork bc header) = bc"
  unfolding CheckProofOfWork_def Let_def HashToBig_rev PowLimit_value
  by (simp del: power_numeral add: not_less)

subsection \<open>False positives\<close>

lemma commitOutputs_no_match:
  "list_all (\<lambda>p. \<not> Addrs_ContainAddr S (DataStore bc) (ProgramHash (snd p))) outs \<Longrightarrow>
   commitOutputs S height txn outs bc hits = (Inr hits, bc)"
  by (induction outs) auto

lemma commitInputs_no_move:
  "list_all
     (\<lambda>input. isl (STXOs_FromUTXO S (DataStore bc)
                      (NewOutPoint (ReferTxID input) (ReferTxOutputIndex input))
                      (Transaction.Hash txn) height)) ins \<Longrightarrow>
   commitInputs S height txn ins bc hits = (hits, bc)"
  by (induction ins) (auto simp: isl_def)

lemma list_all_enumerate:
  "list_all (\<lambda>p. \<not> Addrs_ContainAddr S ds (ProgramHash (snd p))) (enumerate n xs) =
   list_all (\<lambda>out. \<not> Addrs_ContainAddr S ds (ProgramHash out)) xs"
  by (induction xs arbitrary: n) auto

lemma commitTxn_zero_hits:
  assumes "zero_hits S height txn (DataStore bc)"
  shows "commitTxn S height txn bc = (Inr True, bc)"
proof -
  from assms have outs:
    "list_all (\<lambda>p. \<not> Addrs_ContainAddr S (DataStore bc) (ProgramHash (snd p)))
       (enumerate 0 (Outputs txn))"
    by (simp add: zero_hits_def list_all_enumerate)
  from assms have ins:
    "list_all
       (\<lambda>input. isl (STXOs_FromUTXO S (DataStore bc)
                        (NewOutPoint (ReferTxID input) (ReferTxOutputIndex input))
                        (Transaction.Hash txn) height)) (Inputs txn)"
    by (simp add: zero_hits_def)
  show ?thesis
    by (simp add: commitTxn_def commitOutputs_no_match [OF outs] commitInputs_no_move [OF ins])
qed

lemma commitOutputs_hits:
  "commitOutputs S height txn outs bc hits = (Inr hits', bc') \<Longrightarrow>
   hits \<le> hits' \<and>
   (hits' = hits \<longrightarrow>
      bc' = bc \<and>
      list_all (\<lambda>p. \<not> Addrs_ContainAddr S (DataStore bc) (ProgramHash (snd p))) outs)"
proof (induction outs arbitrary: bc hits)
  case Nil
  then show ?case by simp
next
  case (Cons p outs)
  obtain idx out where p: "p = (idx, out)" by (cases p)
  show ?case
  proof (cases "Addrs_ContainAddr S (DataStore bc) (ProgramHash out)")
    case False
    with Cons.prems p have "commitOutputs S height txn outs bc hits = (Inr hits', bc')"
      by simp
    from Cons.IH [OF this] False p show ?thesis by simp
  next
    case True
    with Cons.prems p obtain ds utxo where
      "commitOutputs S height txn outs
         (bc\<lparr>DataStore := ds, effects := effects bc @ [Put_UTXO (ProgramHash out) utxo]\<rparr>)
         (hits + 1) = (Inr hits', bc')"
      by (auto simp: Let_def split: sum.splits)
    from Cons.IH [OF this] show ?thesis by simp
  qed
qed

lemma commitInputs_hits:
  "commitInputs S height txn ins bc hits = (hits', bc') \<Longrightarrow>
   hits \<le> hits' \<and>
   (hits' = hits \<longrightarrow>
      bc' = bc \<and>
      list_all
        (\<lambda>input. isl (STXOs_FromUTXO S (DataStore bc)
                         (NewOutPoint (ReferTxID input) (ReferTxOutputIndex input))
                         (Transaction.Hash txn) height)) ins)"
proof (induction ins arbitrary: bc hits)
  case Nil
  then show ?case by simp
next
  case (Cons input ins)
  let ?r = "STXOs_FromUTXO S (DataStore bc)
              (NewOutPoint (ReferTxID input) (ReferTxOutputIndex input))
              (Transaction.Hash txn) height"
  show ?case
  proof (cases ?r)
    case (Inl err)
    with Cons.prems have "commitInputs S height txn ins bc hits = (hits', bc')"
      by (simp add: Let_def)
    from Cons.IH [OF this] Inl show ?thesis by simp
  next
    case (Inr ds)
    with Cons.prems have
      "commitInputs S height txn ins
         (bc\<lparr>DataStore := ds,
             effects := effects bc @
               [Moved_To_STXO (NewOutPoint (ReferTxID input) (ReferTxOutputIndex input))
                  (Transaction.Hash txn) height]\<rparr>)
         (hits + 1) = (hits', bc')"
      by (simp add: Let_def)
    from Cons.IH [OF this] show ?thesis by simp
  qed
qed

lemma commitTxn_false_positive_iff:
  "(fst (commitTxn S height txn bc) = Inr True) = zero_hits S height txn (DataStore bc)"
proof
  assume "zero_hits S height txn (DataStore bc)"
  then show "fst (commitTxn S height txn bc) = Inr True"
    by (simp add: commitTxn_zero_hits)
next
  assume r: "fst (commitTxn S height txn bc) = Inr True"
  obtain r1 bc1 where o: "commitOutputs S height txn (enumerate 0 (Outputs txn)) bc 0 = (r1, bc1)"
    by (cases "commitOutputs S height txn (enumerate 0 (Outputs txn)) bc 0")
  show "zero_hits S height txn (DataStore bc)"
  proof (cases r1)
    case (Inl err)
    with r o show ?thesis by (simp add: commitTxn_def)
  next
    case (Inr hits1)
    obtain hits bc2 where i: "commitInputs S height txn (Inputs txn) bc1 hits1 = (hits, bc2)"
      by (cases "commitInputs S height txn (Inputs txn) bc1 hits1")
    from r o Inr i have z: "hits = 0"
      by (auto simp: commitTxn_def split: if_splits sum.splits)
    from commitInputs_hits [OF i] z have h1: "hits1 = 0" by simp
    from commitOutputs_hits [OF o [unfolded Inr]] h1 have
      "bc1 = bc"
      "list_all (\<lambda>p. \<not> Addrs_ContainAddr S (DataStore bc) (ProgramHash (snd p)))
         (enumerate 0 (Outputs txn))"
      by simp_all
    moreover from commitInputs_hits [OF i] z h1 have
      "list_all
        (\<lambda>input. isl (STXOs_FromUTXO S (DataStore bc1)
                         (NewOutPoint (ReferTxID input) (ReferTxOutputIndex input))
                         (Transaction.Hash txn) height)) (Inputs txn)"
      by simp
    ultimately show ?thesis
      by (simp add: zero_hits_def list_all_enumerate)
  qed
qed

lemma commitTxns_count:
  "commitTxns S height txns bc acc = (Inr n, bc') \<Longrightarrow>
   n = acc + int (falsePositives S height txns bc)"
proof (induction txns arbitrary: bc acc)
  case Nil
  then show ?case by simp
next
  case (Cons txn txns)
  obtain r bc1 where c: "commitTxn S height txn bc = (r, bc1)"
    by (cases "commitTxn S height txn bc")
  show ?case
  proof (cases r)
    case (Inl err)
    with Cons.prems c show ?thesis by simp
  next
    case (Inr fPositive)
    with Cons.prems c have
      "commitTxns S height txns bc1 (if fPositive then acc + 1 else acc) = (Inr n, bc')"
      by simp
    from Cons.IH [OF this] have n: "n = (if fPositive then acc + 1 else acc) + int (falsePositives S height txns bc1)" .
    have "fPositive = zero_hits S height txn (DataStore bc)"
      using commitTxn_false_positive_iff [of S height txn bc] c Inr by simp
    with n c show ?thesis by simp
  qed
qed

lemma saveBlock_count:
  "saveBlock S header mproof txns bc = (Inr n, bc') \<Longrightarrow>
   n = int (falsePositives S (Height header) txns bc)"
  by (auto simp: saveBlock_def Let_def split: prod.splits sum.splits dest: commitTxns_count)

text \<open>
  C1. A transaction with zero hits (no output to a watched address, \<open>FromUTXO\<close> failing
  for every input) is reported as \<open>(true, nil)\<close> by \<open>commitTxn\<close>, from \<open>CommitBlock\<close>
  and from \<open>CommitUnconfirmedTxn\<close> alike, and leaves the chain exactly as it was: no Txn
  record, no callback, no change to the stores. When \<open>CommitBlock\<close> returns a number,
  it is the number of such transactions in the block, each judged at the store it is
  committed to (after the rollback, when there is one).
\<close>

theorem zero_hit_false_positive:
  "(zero_hits S height txn (DataStore bc) \<longrightarrow> commitTxn S height txn bc = (Inr True, bc)) \<and>
   (zero_hits S 0 txn (DataStore bc) \<longrightarrow> CommitUnconfirmedTxn S txn bc = (Inr True, bc)) \<and>
   (CommitBlock S header mproof txns bc = Some (Inr n, bc') \<longrightarrow>
      (\<exists>tip bc0. Headers_GetTip S (Headers bc) = Inr tip \<and>
             (if Height header < Height tip
              then rollbackTo S (Previous header) bc = Some (None, bc0) else bc0 = bc) \<and>
             n = int (falsePositives S (Height header) txns bc0)))"
proof (intro conjI impI)
  assume "zero_hits S height txn (DataStore bc)"
  then show "commitTxn S height txn bc = (Inr True, bc)" by (rule commitTxn_zero_hits)
next
  assume "zero_hits S 0 txn (DataStore bc)"
  then show "CommitUnconfirmedTxn S txn bc = (Inr True, bc)"
    by (simp add: CommitUnconfirmedTxn_def commitTxn_zero_hits)
next
  assume c: "CommitBlock S header mproof txns bc = Some (Inr n, bc')"
  then obtain tip where tip: "Headers_GetTip S (Headers bc) = Inr tip"
    by (auto simp: CommitBlock_def split: sum.splits)
  show "\<exists>tip bc0. Headers_GetTip S (Headers bc) = Inr tip \<and>
             (if Height header < Height tip
              then rollbackTo S (Previous header) bc = Some (None, bc0) else bc0 = bc) \<and>
             n = int (falsePositives S (Height header) txns bc0)"
  proof (cases "Height header < Height tip")
    case False
    with c tip have "saveBlock S header mproof txns bc = (Inr n, bc')"
      by (simp add: CommitBlock_def)
    then have "n = int (falsePositives S (Height header) txns bc)"
      by (rule saveBlock_count)
    with tip False show ?thesis by simp
  next
    case True
    with c tip obtain bc0 where
      r: "rollbackTo S (Previous header) bc = Some (None, bc0)" and
      s: "saveBlock S header mproof txns bc0 = (Inr n, bc')"
      by (auto simp: CommitBlock_def split: option.splits sum.splits prod.splits)
    from s have "n = int (falsePositives S (Height header) txns bc0)"
      by (rule saveBlock_count)
    with tip True r show ?thesis by auto
  qed
qed

theorem zero_hit_false_positive_witness:
  "zero_hits (memStores 10 10) 3 exForeignTx (DataStore exChain) \<and>
   commitTxn (memStores 10 10) 3 exForeignTx exChain = (Inr True, exChain) \<and>
   zero_hits (memStores 10 10) 0 exForeignTx (DataStore exChain) \<and>
   CommitUnconfirmedTxn (memStores 10 10) exForeignTx exChain = (Inr True, exChain) \<and>
   (\<exists>bc'. CommitBlock (memStores 10 10) (exHeader 3 13 12) exProof [exForeignTx, exCoinbase]
            exChain = Some (Inr 1, bc')) \<and>
   falsePositives (memStores 10 10) 3 [exForeignTx, exCoinbase] exChain = 1"
proof -
  have z3: "zero_hits (memStores 10 10) 3 exForeignTx (DataStore exChain)"
    by (simp add: zero_hits_def mem_defs ex_defs NewOutPoint_def)
  have z0: "zero_hits (memStores 10 10) 0 exForeignTx (DataStore exChain)"
    by (simp add: zero_hits_def mem_defs ex_defs NewOutPoint_def)
  have tip: "Height (exHeader 3 13 12) = 3" by (simp add: exHeader_def)
  have "\<exists>bc'. saveBlock (memStores 10 10) (exHeader 3 13 12) exProof [exForeignTx, exCoinbase]
            exChain = (Inr 1, bc')"
    by (simp add: saveBlock_def commitTxn_def mem_defs ex_defs NewOutPoint_def ToUTXO_def ToTxn_def enumerate_eq_zip Let_def)
  then obtain bc' where
    "CommitBlock (memStores 10 10) (exHeader 3 13 12) exProof [exForeignTx, exCoinbase]
       exChain = Some (Inr 1, bc')"
    by (auto simp add: CommitBlock_def mem_defs ex_defs)
  note c = this
  have tipv: "Headers_GetTip (memStores 10 10) (Headers exChain) = Inr (exHeader 2 12 11)"
    by (simp add: mem_defs ex_defs)
  have nlt: "\<not> Height (exHeader 3 13 12) < Height (exHeader 2 12 11)"
    by (simp add: exHeader_def)
  note t = zero_hit_false_positive [where S = "memStores 10 10" and txn = exForeignTx
      and bc = exChain and header = "exHeader 3 13 12" and mproof = exProof
      and txns = "[exForeignTx, exCoinbase]" and n = "1" and bc' = bc']
  from t [where height = "3"] z3 have a: "commitTxn (memStores 10 10) 3 exForeignTx exChain = (Inr True, exChain)"
    by blast
  from t [where height = "3"] z0 have b: "CommitUnconfirmedTxn (memStores 10 10) exForeignTx exChain = (Inr True, exChain)"
    by blast
  from t [where height = "3"] c obtain tip bc0 where
    g: "Headers_GetTip (memStores 10 10) (Headers exChain) = Inr tip" and
    i: "if Height (exHeader 3 13 12) < Height tip
        then rollbackTo (memStores 10 10) (Previous (exHeader 3 13 12)) exChain = Some (None, bc0)
        else bc0 = exChain" and
    f: "1 = int (falsePositives (memStores 10 10) (Height (exHeader 3 13 12))
                  [exForeignTx, exCoinbase] bc0)"
    by blast
  from g tipv have "tip = exHeader 2 12 11" by simp
  with i nlt have "bc0 = exChain" by simp
  with f have "1 = int (falsePositives (memStores 10 10) (Height (exHeader 3 13 12)) [exForeignTx, exCoinbase] exChain)"
    by simp
  then have d: "falsePositives (memStores 10 10) 3 [exForeignTx, exCoinbase] exChain = 1"
    by (simp add: tip)
  from z3 z0 a b c d show ?thesis by blast
qed

subsection \<open>What a commit touches\<close>

lemma commitOutputs_frame:
  "commitOutputs S height txn outs bc hits = (r, bc') \<Longrightarrow>
   Headers bc' = Headers bc \<and> state bc' = state bc \<and>
   (\<exists>es. effects bc' = effects bc @ es \<and> list_all is_txn_effect es)"
proof (induction outs arbitrary: bc hits)
  case Nil
  then show ?case by simp
next
  case (Cons p outs)
  obtain idx out where p: "p = (idx, out)" by (cases p)
  show ?case
  proof (cases "Addrs_ContainAddr S (DataStore bc) (ProgramHash out)")
    case False
    with Cons.prems p have "commitOutputs S height txn outs bc hits = (r, bc')"
      by simp
    from Cons.IH [OF this] show ?thesis .
  next
    case True
    let ?utxo = "ToUTXO (Transaction.Hash txn) height idx (Output.Value out)
                   (if TxType txn = CoinBase then height + 100 else 0)"
    show ?thesis
    proof (cases "UTXOs_Put S (DataStore bc) (ProgramHash out) ?utxo")
      case (Inl err)
      with Cons.prems p True show ?thesis by (simp add: Let_def)
    next
      case (Inr ds)
      with Cons.prems p True have
        "commitOutputs S height txn outs
           (bc\<lparr>DataStore := ds, effects := effects bc @ [Put_UTXO (ProgramHash out) ?utxo]\<rparr>)
           (hits + 1) = (r, bc')"
        by (simp add: Let_def)
      from Cons.IH [OF this] show ?thesis by auto
    qed
  qed
qed

lemma commitInputs_frame:
  "commitInputs S height txn ins bc hits = (hits', bc') \<Longrightarrow>
   Headers bc' = Headers bc \<and> state bc' = state bc \<and>
   (\<exists>es. effects bc' = effects bc @ es \<and> list_all is_txn_effect es)"
proof (induction ins arbitrary: bc hits)
  case Nil
  then show ?case by simp
next
  case (Cons input ins)
  let ?op = "NewOutPoint (ReferTxID input) (ReferTxOutputIndex input)"
  show ?case
  proof (cases "STXOs_FromUTXO S (DataStore bc) ?op (Transaction.Hash txn) height")
    case (Inl err)
    with Cons.prems have "commitInputs S height txn ins bc hits = (hits', bc')"
      by (simp add: Let_def)
    from Cons.IH [OF this] show ?thesis .
  next
    case (Inr ds)
    with Cons.prems have
      "commitInputs S height txn ins
         (bc\<lparr>DataStore := ds,
             effects := effects bc @ [Moved_To_STXO ?op (Transaction.Hash txn) height]\<rparr>)
         (hits + 1) = (hits', bc')"
      by (simp add: Let_def)
    from Cons.IH [OF this] show ?thesis by auto
  qed
qed

lemma commitTxn_frame:
  assumes "commitTxn S height txn bc = (r, bc')"
  shows "Headers bc' = Headers bc \<and> state bc' = state bc \<and>
         (\<exists>es. effects bc' = effects bc @ es \<and> list_all is_txn_effect es)"
proof -
  obtain r1 bc1 where o: "commitOutputs S height txn (enumerate 0 (Outputs txn)) bc 0 = (r1, bc1)"
    by (cases "commitOutputs S height txn (enumerate 0 (Outputs txn)) bc 0")
  note f1 = commitOutputs_frame [OF o]
  show ?thesis
  proof (cases r1)
    case (Inl err)
    with assms o have "bc' = bc1" by (simp add: commitTxn_def)
    with f1 show ?thesis by simp
  next
    case (Inr hits1)
    obtain hits bc2 where i: "commitInputs S height txn (Inputs txn) bc1 hits1 = (hits, bc2)"
      by (cases "commitInputs S height txn (Inputs txn) bc1 hits1")
    note f2 = commitInputs_frame [OF i]
    from f1 f2 have f: "Headers bc2 = Headers bc \<and> state bc2 = state bc \<and>
         (\<exists>es. effects bc2 = effects bc @ es \<and> list_all is_txn_effect es)"
      by auto
    from assms o Inr i consider "bc' = bc2"
      | ds where "bc' = bc2\<lparr>DataStore := ds,
                     effects := effects bc2 @ [Put_Txn (ToTxn txn height), OnTxCommit txn]\<rparr>"
      by (auto simp: commitTxn_def split: if_splits sum.splits)
    then show ?thesis
    proof cases
      case 1
      with f show ?thesis by simp
    next
      case 2
      with f show ?thesis by auto
    qed
  qed
qed

lemma commitTxns_frame:
  "commitTxns S height txs bc acc = (r, bc') \<Longrightarrow>
   Headers bc' = Headers bc \<and> state bc' = state bc \<and>
   (\<exists>es. effects bc' = effects bc @ es \<and> list_all is_txn_effect es)"
proof (induction txs arbitrary: bc acc)
  case Nil
  then show ?case by simp
next
  case (Cons txn txs)
  obtain r1 bc1 where c: "commitTxn S height txn bc = (r1, bc1)"
    by (cases "commitTxn S height txn bc")
  note f1 = commitTxn_frame [OF c]
  show ?case
  proof (cases r1)
    case (Inl err)
    with Cons.prems c have "bc' = bc1" by simp
    with f1 show ?thesis by simp
  next
    case (Inr fPositive)
    with Cons.prems c have
      "commitTxns S height txs bc1 (if fPositive then acc + 1 else acc) = (r, bc')"
      by simp
    from Cons.IH [OF this] f1 show ?thesis by auto
  qed
qed

lemma txn_effect_not_rollback: "is_txn_effect e \<Longrightarrow> \<not> is_rollback_effect e"
  by (cases e) simp_all

lemma list_all_txn_not_rollback:
  "list_all is_txn_effect es \<Longrightarrow> list_all (\<lambda>e. \<not> is_rollback_effect e) es"
  by (induction es) (auto dest: txn_effect_not_rollback)

lemma saveBlock_frame:
  assumes "saveBlock S header mproof txs bc = (r, bc')"
  shows "(\<exists>es. effects bc' = effects bc @ es \<and> list_all (\<lambda>e. \<not> is_rollback_effect e) es) \<and>
         (Headers bc' = Headers bc \<or> Headers_Add S (Headers bc) header = Inr (Headers bc'))"
proof -
  obtain r1 bc1 where c: "commitTxns S (Height header) txs bc 0 = (r1, bc1)"
    by (cases "commitTxns S (Height header) txs bc 0")
  from commitTxns_frame [OF c] obtain es where
    f: "Headers bc1 = Headers bc" "effects bc1 = effects bc @ es" "list_all is_txn_effect es"
    by auto
  from f(3) have nr: "list_all (\<lambda>e. \<not> is_rollback_effect e) es"
    by (rule list_all_txn_not_rollback)
  show ?thesis
  proof (cases r1)
    case (Inl err)
    with assms c have "bc' = bc1" by (simp add: saveBlock_def)
    with f nr show ?thesis by simp
  next
    case n: (Inr fPositives)
    show ?thesis
    proof (cases "Proofs_Put S (DataStore bc1) mproof")
      case (Inl err)
      with assms c n have "bc' = bc1" by (simp add: saveBlock_def)
      with f nr show ?thesis by simp
    next
      case p: (Inr ds)
      define bc2 where "bc2 = bc1\<lparr>DataStore := ds, effects := effects bc1 @ [Put_Proof mproof]\<rparr>"
      have f2: "Headers bc2 = Headers bc" "effects bc2 = effects bc @ (es @ [Put_Proof mproof])"
        using f by (simp_all add: bc2_def)
      show ?thesis
      proof (cases "Headers_Add S (Headers bc2) header")
        case (Inl err)
        with assms c n p have "bc' = bc2" by (simp add: saveBlock_def bc2_def)
        with f2 nr show ?thesis by simp
      next
        case a: (Inr hs)
        with assms c n p have bc': "bc' = bc2\<lparr>Headers := hs,
            DataStore := Info_SaveChainHeight S (DataStore bc2) (Height header),
            effects := effects bc2 @
              [Added_Header header, Saved_ChainHeight (Height header),
               OnBlockCommit header mproof txs]\<rparr>"
          by (simp add: saveBlock_def bc2_def)
        have "effects bc' = effects bc @ (es @ [Put_Proof mproof, Added_Header header,
               Saved_ChainHeight (Height header), OnBlockCommit header mproof txs])"
          using f2 bc' by simp
        moreover have "list_all (\<lambda>e. \<not> is_rollback_effect e) (es @ [Put_Proof mproof,
               Added_Header header, Saved_ChainHeight (Height header),
               OnBlockCommit header mproof txs])"
          using nr by simp
        moreover have "Headers_Add S (Headers bc) header = Inr (Headers bc')"
          using a f2 bc' by simp
        ultimately show ?thesis by blast
      qed
    qed
  qed
qed

text \<open>
  C2. With a readable tip, \<open>CommitBlock\<close> starts with \<open>rollbackTo header.Previous\<close>
  when the header's height is below the tip's, and only then: otherwise (a block at
  the tip's height included) it is \<open>saveBlock\<close> on the chain as it stands, no rollback
  effect occurs, and the headers store is untouched until the header is added.
\<close>

theorem CommitBlock_rollback_iff:
  assumes "Headers_GetTip S (Headers bc) = Inr tip"
  shows "(Height header < Height tip \<longrightarrow>
            CommitBlock S header mproof txs bc =
              (case rollbackTo S (Previous header) bc of
                 None \<Rightarrow> None
               | Some (Some err, bc1) \<Rightarrow> Some (Inl err, bc1)
               | Some (None, bc1) \<Rightarrow> Some (saveBlock S header mproof txs bc1))) \<and>
         (\<not> Height header < Height tip \<longrightarrow>
            (\<exists>r bc'. CommitBlock S header mproof txs bc = Some (r, bc') \<and>
               saveBlock S header mproof txs bc = (r, bc') \<and>
               (\<exists>es. effects bc' = effects bc @ es \<and>
                     list_all (\<lambda>e. \<not> is_rollback_effect e) es) \<and>
               (Headers bc' = Headers bc \<or>
                Headers_Add S (Headers bc) header = Inr (Headers bc'))))"
proof (intro conjI impI)
  assume "Height header < Height tip"
  with assms show "CommitBlock S header mproof txs bc =
      (case rollbackTo S (Previous header) bc of
         None \<Rightarrow> None
       | Some (Some err, bc1) \<Rightarrow> Some (Inl err, bc1)
       | Some (None, bc1) \<Rightarrow> Some (saveBlock S header mproof txs bc1))"
    by (simp add: CommitBlock_def)
next
  assume ge: "\<not> Height header < Height tip"
  obtain r bc' where s: "saveBlock S header mproof txs bc = (r, bc')"
    by (cases "saveBlock S header mproof txs bc")
  from assms ge s have "CommitBlock S header mproof txs bc = Some (r, bc')"
    by (simp add: CommitBlock_def)
  with s saveBlock_frame [OF s] show
    "\<exists>r bc'. CommitBlock S header mproof txs bc = Some (r, bc') \<and>
       saveBlock S header mproof txs bc = (r, bc') \<and>
       (\<exists>es. effects bc' = effects bc @ es \<and> list_all (\<lambda>e. \<not> is_rollback_effect e) es) \<and>
       (Headers bc' = Headers bc \<or> Headers_Add S (Headers bc) header = Inr (Headers bc'))"
    by blast
qed

theorem CommitBlock_rollback_iff_witness:
  "Headers_GetTip (memStores 10 10) (Headers exChain) = Inr (exHeader 2 12 11) \<and>
   Height (exHeader 1 14 10) < Height (exHeader 2 12 11) \<and>
   CommitBlock (memStores 10 10) (exHeader 1 14 10) exProof [exCoinbase] exChain =
     (case rollbackTo (memStores 10 10) (Previous (exHeader 1 14 10)) exChain of
        None \<Rightarrow> None
      | Some (Some err, bc1) \<Rightarrow> Some (Inl err, bc1)
      | Some (None, bc1) \<Rightarrow> Some (saveBlock (memStores 10 10) (exHeader 1 14 10) exProof [exCoinbase] bc1)) \<and>
   \<not> Height (exHeader 2 15 11) < Height (exHeader 2 12 11) \<and>
   (\<exists>r bc'. CommitBlock (memStores 10 10) (exHeader 2 15 11) exProof [exCoinbase] exChain = Some (r, bc') \<and>
      saveBlock (memStores 10 10) (exHeader 2 15 11) exProof [exCoinbase] exChain = (r, bc') \<and>
      (\<exists>es. effects bc' = effects exChain @ es \<and> list_all (\<lambda>e. \<not> is_rollback_effect e) es) \<and>
      (Headers bc' = Headers exChain \<or>
       Headers_Add (memStores 10 10) (Headers exChain) (exHeader 2 15 11) = Inr (Headers bc')))"
proof -
  have tip: "Headers_GetTip (memStores 10 10) (Headers exChain) = Inr (exHeader 2 12 11)"
    by (simp add: mem_defs ex_defs)
  have lt: "Height (exHeader 1 14 10) < Height (exHeader 2 12 11)"
    by (simp add: exHeader_def)
  have ge: "\<not> Height (exHeader 2 15 11) < Height (exHeader 2 12 11)"
    by (simp add: exHeader_def)
  from CommitBlock_rollback_iff [OF tip, where header = "exHeader 1 14 10" and mproof = exProof
      and txs = "[exCoinbase]"] lt
  have a: "CommitBlock (memStores 10 10) (exHeader 1 14 10) exProof [exCoinbase] exChain =
     (case rollbackTo (memStores 10 10) (Previous (exHeader 1 14 10)) exChain of
        None \<Rightarrow> None
      | Some (Some err, bc1) \<Rightarrow> Some (Inl err, bc1)
      | Some (None, bc1) \<Rightarrow> Some (saveBlock (memStores 10 10) (exHeader 1 14 10) exProof [exCoinbase] bc1))"
    by blast
  from CommitBlock_rollback_iff [OF tip, where header = "exHeader 2 15 11" and mproof = exProof
      and txs = "[exCoinbase]"] ge
  have b: "\<exists>r bc'. CommitBlock (memStores 10 10) (exHeader 2 15 11) exProof [exCoinbase] exChain = Some (r, bc') \<and>
      saveBlock (memStores 10 10) (exHeader 2 15 11) exProof [exCoinbase] exChain = (r, bc') \<and>
      (\<exists>es. effects bc' = effects exChain @ es \<and> list_all (\<lambda>e. \<not> is_rollback_effect e) es) \<and>
      (Headers bc' = Headers exChain \<or>
       Headers_Add (memStores 10 10) (Headers exChain) (exHeader 2 15 11) = Inr (Headers bc'))"
    by blast
  from tip lt a ge b show ?thesis by (intro conjI)
qed

subsection \<open>Rolling back to the fork point\<close>


lemma rollback_effects_Cons:
  "rollback_effects (r # rs) =
     [Removed_Header r, Rolled_Back (Height r), OnRollback (Height r)] @ rollback_effects rs"
  by (simp add: rollback_effects_def)






subsection \<open>A failing commit\<close>

lemma commitTxns_append:
  "commitTxns S height (xs @ ys) bc acc =
     (case commitTxns S height xs bc acc of
        (Inl err, bc1) \<Rightarrow> (Inl err, bc1)
      | (Inr n, bc1) \<Rightarrow> commitTxns S height ys bc1 n)"
proof (induction xs arbitrary: bc acc)
  case Nil
  show ?case by simp
next
  case (Cons x xs)
  show ?case
    by (cases "commitTxn S height x bc") (auto simp: Cons.IH split: sum.splits)
qed

lemma commitTxns_fails_at:
  assumes "i < length txs"
    and "commitTxns S height (take i txs) bc acc = (Inr n, bci)"
    and "commitTxn S height (txs ! i) bci = (Inl err, bcf)"
  shows "commitTxns S height txs bc acc = (Inl err, bcf)"
proof -
  from assms(1) have "txs = take i txs @ (txs ! i) # drop (Suc i) txs"
    by (simp add: id_take_nth_drop)
  then have "commitTxns S height txs bc acc =
      commitTxns S height (take i txs @ (txs ! i) # drop (Suc i) txs) bc acc"
    by simp
  also have "\<dots> = (Inl err, bcf)"
    using assms(2,3) by (simp add: commitTxns_append)
  finally show ?thesis .
qed

lemma CommitBlock_after_fork_check:
  assumes "Headers_GetTip S (Headers bc) = Inr tip"
    and "if Height header < Height tip
         then rollbackTo S (Previous header) bc = Some (None, bc0) else bc0 = bc"
  shows "CommitBlock S header mproof txs bc = Some (saveBlock S header mproof txs bc0)"
  using assms by (simp add: CommitBlock_def split: if_splits)

lemma replay_append:
  "replay S (xs @ ys) ds =
     (case replay S xs ds of None \<Rightarrow> None | Some ds' \<Rightarrow> replay S ys ds')"
  by (induction xs arbitrary: ds) (auto split: option.splits)

lemma replay_append_Some:
  "replay S xs ds = Some ds1 \<Longrightarrow> replay S ys ds1 = Some ds2 \<Longrightarrow>
   replay S (xs @ ys) ds = Some ds2"
  by (simp add: replay_append)

lemma commitOutputs_puts:
  "commitOutputs S height txn ios bc hits = (r, bc') \<Longrightarrow>
   \<exists>sel. subseq sel ios \<and> effects bc' = effects bc @ map (utxo_put height txn) sel \<and>
         replay S (map (utxo_put height txn) sel) (DataStore bc) = Some (DataStore bc') \<and>
         (\<forall>hits'. r = Inr hits' \<longrightarrow> hits' = hits + length sel)"
proof (induction ios arbitrary: bc hits)
  case Nil
  then show ?case by auto
next
  case (Cons p ios)
  obtain idx out where p: "p = (idx, out)" by (cases p)
  show ?case
  proof (cases "Addrs_ContainAddr S (DataStore bc) (ProgramHash out)")
    case False
    with Cons.prems p have "commitOutputs S height txn ios bc hits = (r, bc')"
      by simp
    from Cons.IH [OF this] obtain sel where
      sel: "subseq sel ios" "effects bc' = effects bc @ map (utxo_put height txn) sel"
        "replay S (map (utxo_put height txn) sel) (DataStore bc) = Some (DataStore bc')"
        "\<forall>hits'. r = Inr hits' \<longrightarrow> hits' = hits + length sel"
      by blast
    from sel(1) have "subseq sel (p # ios)" by (rule list_emb_Cons)
    with sel show ?thesis by blast
  next
    case True
    let ?utxo = "ToUTXO (Transaction.Hash txn) height idx (Output.Value out)
                   (if TxType txn = CoinBase then height + 100 else 0)"
    have up: "utxo_put height txn p = Put_UTXO (ProgramHash out) ?utxo"
      by (simp add: utxo_put_def p)
    show ?thesis
    proof (cases "UTXOs_Put S (DataStore bc) (ProgramHash out) ?utxo")
      case (Inl err)
      with Cons.prems p True have "r = Inl err" "bc' = bc" by (simp_all add: Let_def)
      then have "subseq [] (p # ios) \<and> effects bc' = effects bc @ map (utxo_put height txn) [] \<and>
         replay S (map (utxo_put height txn) []) (DataStore bc) = Some (DataStore bc') \<and>
         (\<forall>hits'. r = Inr hits' \<longrightarrow> hits' = hits + length ([] :: (nat \<times> Output) list))"
        by simp
      then show ?thesis by blast
    next
      case (Inr ds)
      let ?bc1 = "bc\<lparr>DataStore := ds, effects := effects bc @ [Put_UTXO (ProgramHash out) ?utxo]\<rparr>"
      from Inr Cons.prems p True have
        "commitOutputs S height txn ios ?bc1 (hits + 1) = (r, bc')"
        by (simp add: Let_def)
      from Cons.IH [OF this] obtain sel where
        sel: "subseq sel ios"
          "effects bc' = effects ?bc1 @ map (utxo_put height txn) sel"
          "replay S (map (utxo_put height txn) sel) (DataStore ?bc1) = Some (DataStore bc')"
          "\<forall>hits'. r = Inr hits' \<longrightarrow> hits' = hits + 1 + length sel"
        by blast
      from sel(1) have 1: "subseq (p # sel) (p # ios)" by simp
      from sel(2) up have 2: "effects bc' = effects bc @ map (utxo_put height txn) (p # sel)"
        by simp
      from sel(3) Inr up have 3:
        "replay S (map (utxo_put height txn) (p # sel)) (DataStore bc) = Some (DataStore bc')"
        by simp
      from sel(4) have 4: "\<forall>hits'. r = Inr hits' \<longrightarrow> hits' = hits + length (p # sel)"
        by simp
      from 1 2 3 4 show ?thesis by blast
    qed
  qed
qed

lemma commitOutputs_fails:
  "commitOutputs S height txn ios bc hits = (Inl err, bc') \<Longrightarrow>
   \<exists>k hits'. k < length ios \<and>
      commitOutputs S height txn (take k ios) bc hits = (Inr hits', bc') \<and>
      Addrs_ContainAddr S (DataStore bc') (ProgramHash (snd (ios ! k))) \<and>
      UTXOs_Put S (DataStore bc') (ProgramHash (snd (ios ! k)))
        (ToUTXO (Transaction.Hash txn) height (fst (ios ! k)) (Output.Value (snd (ios ! k)))
           (if TxType txn = CoinBase then height + 100 else 0)) = Inl err"
proof (induction ios arbitrary: bc hits)
  case Nil
  then show ?case by simp
next
  case (Cons p ios)
  obtain idx out where p: "p = (idx, out)" by (cases p)
  let ?utxo = "ToUTXO (Transaction.Hash txn) height idx (Output.Value out)
                 (if TxType txn = CoinBase then height + 100 else 0)"
  let ?P = "\<lambda>ios k hits' bc. k < length ios \<and>
      commitOutputs S height txn (take k ios) bc hits = (Inr hits', bc') \<and>
      Addrs_ContainAddr S (DataStore bc') (ProgramHash (snd (ios ! k))) \<and>
      UTXOs_Put S (DataStore bc') (ProgramHash (snd (ios ! k)))
        (ToUTXO (Transaction.Hash txn) height (fst (ios ! k)) (Output.Value (snd (ios ! k)))
           (if TxType txn = CoinBase then height + 100 else 0)) = Inl err"
  show ?case
  proof (cases "Addrs_ContainAddr S (DataStore bc) (ProgramHash out)")
    case False
    with Cons.prems p have "commitOutputs S height txn ios bc hits = (Inl err, bc')"
      by simp
    from Cons.IH [OF this] obtain k hits' where k: "k < length ios"
      "commitOutputs S height txn (take k ios) bc hits = (Inr hits', bc')"
      "Addrs_ContainAddr S (DataStore bc') (ProgramHash (snd (ios ! k)))"
      "UTXOs_Put S (DataStore bc') (ProgramHash (snd (ios ! k)))
        (ToUTXO (Transaction.Hash txn) height (fst (ios ! k)) (Output.Value (snd (ios ! k)))
           (if TxType txn = CoinBase then height + 100 else 0)) = Inl err"
      by blast
    from k(2) False p have
      "commitOutputs S height txn (take (Suc k) (p # ios)) bc hits = (Inr hits', bc')"
      by simp
    with k show ?thesis
      by (intro exI [of _ "Suc k"] exI [of _ hits']) simp
  next
    case True
    show ?thesis
    proof (cases "UTXOs_Put S (DataStore bc) (ProgramHash out) ?utxo")
      case (Inl e)
      with Cons.prems p True have "e = err" "bc' = bc" by (simp_all add: Let_def)
      with Inl True p show ?thesis
        by (intro exI [of _ 0] exI [of _ hits]) simp
    next
      case (Inr ds)
      let ?bc1 = "bc\<lparr>DataStore := ds, effects := effects bc @ [Put_UTXO (ProgramHash out) ?utxo]\<rparr>"
      from Inr Cons.prems p True have
        "commitOutputs S height txn ios ?bc1 (hits + 1) = (Inl err, bc')"
        by (simp add: Let_def)
      from Cons.IH [OF this] obtain k hits' where k: "k < length ios"
        "commitOutputs S height txn (take k ios) ?bc1 (hits + 1) = (Inr hits', bc')"
        "Addrs_ContainAddr S (DataStore bc') (ProgramHash (snd (ios ! k)))"
        "UTXOs_Put S (DataStore bc') (ProgramHash (snd (ios ! k)))
          (ToUTXO (Transaction.Hash txn) height (fst (ios ! k)) (Output.Value (snd (ios ! k)))
             (if TxType txn = CoinBase then height + 100 else 0)) = Inl err"
        by blast
      from k(2) Inr True p have
        "commitOutputs S height txn (take (Suc k) (p # ios)) bc hits = (Inr hits', bc')"
        by (simp add: Let_def)
      with k show ?thesis
        by (intro exI [of _ "Suc k"] exI [of _ hits']) simp
    qed
  qed
qed

lemma commitInputs_moves:
  "commitInputs S height txn ins bc hits = (hits', bc') \<Longrightarrow>
   \<exists>sel. subseq sel ins \<and> effects bc' = effects bc @ map (stxo_move height txn) sel \<and>
         replay S (map (stxo_move height txn) sel) (DataStore bc) = Some (DataStore bc') \<and>
         hits' = hits + length sel"
proof (induction ins arbitrary: bc hits)
  case Nil
  then show ?case by auto
next
  case (Cons input ins)
  let ?op = "NewOutPoint (ReferTxID input) (ReferTxOutputIndex input)"
  have mv: "stxo_move height txn input = Moved_To_STXO ?op (Transaction.Hash txn) height"
    by (simp add: stxo_move_def)
  show ?case
  proof (cases "STXOs_FromUTXO S (DataStore bc) ?op (Transaction.Hash txn) height")
    case (Inl err)
    with Cons.prems have "commitInputs S height txn ins bc hits = (hits', bc')"
      by (simp add: Let_def)
    from Cons.IH [OF this] obtain sel where
      sel: "subseq sel ins" "effects bc' = effects bc @ map (stxo_move height txn) sel"
        "replay S (map (stxo_move height txn) sel) (DataStore bc) = Some (DataStore bc')"
        "hits' = hits + length sel"
      by blast
    from sel(1) have "subseq sel (input # ins)" by (rule list_emb_Cons)
    with sel show ?thesis by blast
  next
    case (Inr ds)
    let ?bc1 = "bc\<lparr>DataStore := ds,
             effects := effects bc @ [Moved_To_STXO ?op (Transaction.Hash txn) height]\<rparr>"
    from Inr Cons.prems have
      "commitInputs S height txn ins ?bc1 (hits + 1) = (hits', bc')"
      by (simp add: Let_def)
    from Cons.IH [OF this] obtain sel where
      sel: "subseq sel ins"
        "effects bc' = effects ?bc1 @ map (stxo_move height txn) sel"
        "replay S (map (stxo_move height txn) sel) (DataStore ?bc1) = Some (DataStore bc')"
        "hits' = hits + 1 + length sel"
      by blast
    from sel(1) have 1: "subseq (input # sel) (input # ins)" by simp
    from sel(2) mv have 2: "effects bc' = effects bc @ map (stxo_move height txn) (input # sel)"
      by simp
    from sel(3) Inr mv have 3:
      "replay S (map (stxo_move height txn) (input # sel)) (DataStore bc) = Some (DataStore bc')"
      by simp
    from sel(4) have 4: "hits' = hits + length (input # sel)" by simp
    from 1 2 3 4 show ?thesis by blast
  qed
qed

lemma commitTxn_writes:
  assumes "commitTxn S height txn bc = (r, bc')"
  shows "\<exists>es. effects bc' = effects bc @ es \<and>
              replay S es (DataStore bc) = Some (DataStore bc')"
proof -
  obtain r1 bc1 where o: "commitOutputs S height txn (enumerate 0 (Outputs txn)) bc 0 = (r1, bc1)"
    by (cases "commitOutputs S height txn (enumerate 0 (Outputs txn)) bc 0")
  from commitOutputs_puts [OF o] obtain es1 where
    e1: "effects bc1 = effects bc @ es1" "replay S es1 (DataStore bc) = Some (DataStore bc1)"
    by blast
  show ?thesis
  proof (cases r1)
    case (Inl err)
    with assms o have "bc' = bc1" by (simp add: commitTxn_def)
    with e1 show ?thesis by blast
  next
    case (Inr hits1)
    obtain hits bc2 where i: "commitInputs S height txn (Inputs txn) bc1 hits1 = (hits, bc2)"
      by (cases "commitInputs S height txn (Inputs txn) bc1 hits1")
    from commitInputs_moves [OF i] obtain es2 where
      e2: "effects bc2 = effects bc1 @ es2" "replay S es2 (DataStore bc1) = Some (DataStore bc2)"
      by blast
    from e1(1) e2(1) have e12a: "effects bc2 = effects bc @ (es1 @ es2)"
      by simp
    from e1(2) e2(2) have e12b: "replay S (es1 @ es2) (DataStore bc) = Some (DataStore bc2)"
      by (rule replay_append_Some)
    note e12 = e12a e12b
    have "bc' = bc2 \<or>
        (\<exists>ds. TXNs_Put S (DataStore bc2) (ToTxn txn height) = Inr ds \<and>
          bc' = bc2\<lparr>DataStore := ds,
                     effects := effects bc2 @ [Put_Txn (ToTxn txn height), OnTxCommit txn]\<rparr>)"
    proof (cases "hits = 0")
      case True
      with assms o Inr i show ?thesis by (simp add: commitTxn_def)
    next
      case False
      show ?thesis
      proof (cases "TXNs_Put S (DataStore bc2) (ToTxn txn height)")
        case (Inl e)
        with assms o Inr i False show ?thesis by (simp add: commitTxn_def)
      next
        case (Inr ds)
        with assms o \<open>r1 = Inr hits1\<close> i False show ?thesis by (simp add: commitTxn_def)
      qed
    qed
    then consider "bc' = bc2"
      | ds where "TXNs_Put S (DataStore bc2) (ToTxn txn height) = Inr ds"
          "bc' = bc2\<lparr>DataStore := ds,
                     effects := effects bc2 @ [Put_Txn (ToTxn txn height), OnTxCommit txn]\<rparr>"
      by blast
    then show ?thesis
    proof cases
      case 1
      with e12 show ?thesis by blast
    next
      case 2
      from 2(1) have "replay S [Put_Txn (ToTxn txn height), OnTxCommit txn] (DataStore bc2) = Some ds"
        by simp
      with e12(2) have
        "replay S ((es1 @ es2) @ [Put_Txn (ToTxn txn height), OnTxCommit txn]) (DataStore bc) = Some ds"
        by (rule replay_append_Some)
      moreover from 2(2) e12(1) have
        "effects bc' = effects bc @ ((es1 @ es2) @ [Put_Txn (ToTxn txn height), OnTxCommit txn])"
        by simp
      moreover from 2(2) have "DataStore bc' = ds" by simp
      ultimately show ?thesis by blast
    qed
  qed
qed

lemma commitTxns_writes:
  "commitTxns S height txs bc acc = (r, bc') \<Longrightarrow>
   \<exists>es. effects bc' = effects bc @ es \<and> replay S es (DataStore bc) = Some (DataStore bc')"
proof (induction txs arbitrary: bc acc)
  case Nil
  then have "effects bc' = effects bc @ [] \<and> replay S [] (DataStore bc) = Some (DataStore bc')"
    by simp
  then show ?case by blast
next
  case (Cons txn txs)
  obtain r1 bc1 where c: "commitTxn S height txn bc = (r1, bc1)"
    by (cases "commitTxn S height txn bc")
  from commitTxn_writes [OF c] obtain es1 where
    e1: "effects bc1 = effects bc @ es1" "replay S es1 (DataStore bc) = Some (DataStore bc1)"
    by blast
  show ?case
  proof (cases r1)
    case (Inl err)
    with Cons.prems c have "bc' = bc1" by simp
    with e1 show ?thesis by blast
  next
    case (Inr fPositive)
    with Cons.prems c have
      "commitTxns S height txs bc1 (if fPositive then acc + 1 else acc) = (r, bc')"
      by simp
    from Cons.IH [OF this] obtain es2 where
      e2: "effects bc' = effects bc1 @ es2" "replay S es2 (DataStore bc1) = Some (DataStore bc')"
      by blast
    from e1 e2 have "effects bc' = effects bc @ (es1 @ es2)"
      "replay S (es1 @ es2) (DataStore bc) = Some (DataStore bc')"
      by (simp_all add: replay_append)
    then show ?thesis by blast
  qed
qed

lemma commitTxn_fails:
  assumes "commitTxn S height txn bc = (Inl err, bc')"
  shows
   "(\<exists>k hits sel. k < length (Outputs txn) \<and>
       commitOutputs S height txn (take k (enumerate 0 (Outputs txn))) bc 0 = (Inr hits, bc') \<and>
       Addrs_ContainAddr S (DataStore bc') (ProgramHash (Outputs txn ! k)) \<and>
       UTXOs_Put S (DataStore bc') (ProgramHash (Outputs txn ! k))
         (ToUTXO (Transaction.Hash txn) height k (Output.Value (Outputs txn ! k))
            (if TxType txn = CoinBase then height + 100 else 0)) = Inl err \<and>
       subseq sel (take k (enumerate 0 (Outputs txn))) \<and> length sel = hits \<and>
       effects bc' = effects bc @ map (utxo_put height txn) sel) \<or>
    (\<exists>hits1 bc1 hits. 
       commitOutputs S height txn (enumerate 0 (Outputs txn)) bc 0 = (Inr hits1, bc1) \<and>
       commitInputs S height txn (Inputs txn) bc1 hits1 = (hits, bc') \<and> 0 < hits \<and>
       TXNs_Put S (DataStore bc') (ToTxn txn height) = Inl err)"
proof -
  obtain r1 bc1 where o: "commitOutputs S height txn (enumerate 0 (Outputs txn)) bc 0 = (r1, bc1)"
    by (cases "commitOutputs S height txn (enumerate 0 (Outputs txn)) bc 0")
  show ?thesis
  proof (cases r1)
    case (Inl e)
    with assms o have eq: "e = err" "bc1 = bc'" by (simp_all add: commitTxn_def)
    with o Inl have "commitOutputs S height txn (enumerate 0 (Outputs txn)) bc 0 = (Inl err, bc')"
      by simp
    from commitOutputs_fails [OF this] obtain k hits where
      k: "k < length (enumerate 0 (Outputs txn))"
        "commitOutputs S height txn (take k (enumerate 0 (Outputs txn))) bc 0 = (Inr hits, bc')"
        "Addrs_ContainAddr S (DataStore bc') (ProgramHash (snd (enumerate 0 (Outputs txn) ! k)))"
        "UTXOs_Put S (DataStore bc') (ProgramHash (snd (enumerate 0 (Outputs txn) ! k)))
          (ToUTXO (Transaction.Hash txn) height (fst (enumerate 0 (Outputs txn) ! k))
             (Output.Value (snd (enumerate 0 (Outputs txn) ! k)))
             (if TxType txn = CoinBase then height + 100 else 0)) = Inl err"
      by blast
    from k(1) have kl: "k < length (Outputs txn)" by simp
    then have nth: "enumerate 0 (Outputs txn) ! k = (k, Outputs txn ! k)"
      by (simp add: nth_enumerate_eq)
    from commitOutputs_puts [OF k(2)] obtain sel where
      sel: "subseq sel (take k (enumerate 0 (Outputs txn)))"
        "effects bc' = effects bc @ map (utxo_put height txn) sel"
        "hits = length sel"
      by auto
    from kl k(2,3,4) nth sel have
      "k < length (Outputs txn) \<and>
       commitOutputs S height txn (take k (enumerate 0 (Outputs txn))) bc 0 = (Inr hits, bc') \<and>
       Addrs_ContainAddr S (DataStore bc') (ProgramHash (Outputs txn ! k)) \<and>
       UTXOs_Put S (DataStore bc') (ProgramHash (Outputs txn ! k))
         (ToUTXO (Transaction.Hash txn) height k (Output.Value (Outputs txn ! k))
            (if TxType txn = CoinBase then height + 100 else 0)) = Inl err \<and>
       subseq sel (take k (enumerate 0 (Outputs txn))) \<and> length sel = hits \<and>
       effects bc' = effects bc @ map (utxo_put height txn) sel"
      by simp
    then show ?thesis by blast
  next
    case (Inr hits1)
    obtain hits bc2 where i: "commitInputs S height txn (Inputs txn) bc1 hits1 = (hits, bc2)"
      by (cases "commitInputs S height txn (Inputs txn) bc1 hits1")
    from assms o Inr i have "0 < hits \<and> bc2 = bc' \<and>
        TXNs_Put S (DataStore bc') (ToTxn txn height) = Inl err"
      by (auto simp: commitTxn_def split: if_splits sum.splits)
    with o Inr i show ?thesis by blast
  qed
qed

lemma commitTxn_kept:
  assumes "commitTxn S height txn bc = (r, bc')"
  shows "Headers bc' = Headers bc \<and>
         (\<exists>es. effects bc' = effects bc @ es \<and> list_all is_txn_effect es \<and>
               replay S es (DataStore bc) = Some (DataStore bc'))"
proof -
  from commitTxn_frame [OF assms] obtain es where
    f: "Headers bc' = Headers bc" "effects bc' = effects bc @ es" "list_all is_txn_effect es"
    by blast
  from commitTxn_writes [OF assms] obtain es' where
    w: "effects bc' = effects bc @ es'" "replay S es' (DataStore bc) = Some (DataStore bc')"
    by blast
  from f(2) w(1) have "es' = es" by simp
  with f w show ?thesis by blast
qed

lemma commitTxns_kept:
  assumes "commitTxns S height txs bc acc = (r, bc')"
  shows "Headers bc' = Headers bc \<and>
         (\<exists>es. effects bc' = effects bc @ es \<and> list_all is_txn_effect es \<and>
               replay S es (DataStore bc) = Some (DataStore bc'))"
proof -
  from commitTxns_frame [OF assms] obtain es where
    f: "Headers bc' = Headers bc" "effects bc' = effects bc @ es" "list_all is_txn_effect es"
    by blast
  from commitTxns_writes [OF assms] obtain es' where
    w: "effects bc' = effects bc @ es'" "replay S es' (DataStore bc) = Some (DataStore bc')"
    by blast
  from f(2) w(1) have "es' = es" by simp
  with f w show ?thesis by blast
qed

text \<open>
  C10, as amended. Let \<open>bc0\<close> be the chain after the fork check of \<open>CommitBlock\<close>. If
  the commit of transaction \<open>i\<close> fails after the transactions before it were committed,
  or the merkle proof cannot be put, or the header cannot be added, \<open>CommitBlock\<close>
  returns the error with the chain as the writes so far left it. Nothing is undone: the
  data store is the one of \<open>bc0\<close> with every write of the effect log applied, the
  headers store is as after the fork check, and the effects since then are those of
  transaction commits only, followed, when it is the header that fails, by the merkle
  proof, which has been put by then. No header is added and no chain height saved.
  Where transaction \<open>i\<close> fails, the chain returned is either the one its outputs before
  output \<open>k\<close> left, with one UTXO put for each of them that was watched, \<open>k\<close> being the
  output whose put fails; or the one all its outputs and inputs left, when it is the Txn
  record that cannot be put.
\<close>

theorem commit_not_undone:
  assumes tip: "Headers_GetTip S (Headers bc) = Inr tip"
    and fork: "if Height header < Height tip
               then rollbackTo S (Previous header) bc = Some (None, bc0) else bc0 = bc"
  shows
    "(i < length txs \<and>
      commitTxns S (Height header) (take i txs) bc0 0 = (Inr n, bci) \<and>
      commitTxn S (Height header) (txs ! i) bci = (Inl err, bcf) \<longrightarrow>
        CommitBlock S header mproof txs bc = Some (Inl err, bcf) \<and>
        Headers bcf = Headers bc0 \<and>
        (\<exists>es1 es2. effects bci = effects bc0 @ es1 \<and> effects bcf = effects bci @ es2 \<and>
           list_all is_txn_effect (es1 @ es2) \<and>
           replay S es1 (DataStore bc0) = Some (DataStore bci) \<and>
           replay S es2 (DataStore bci) = Some (DataStore bcf)) \<and>
        ((\<exists>k hits sel. k < length (Outputs (txs ! i)) \<and>
            commitOutputs S (Height header) (txs ! i)
              (take k (enumerate 0 (Outputs (txs ! i)))) bci 0 = (Inr hits, bcf) \<and>
            Addrs_ContainAddr S (DataStore bcf) (ProgramHash (Outputs (txs ! i) ! k)) \<and>
            UTXOs_Put S (DataStore bcf) (ProgramHash (Outputs (txs ! i) ! k))
              (ToUTXO (Transaction.Hash (txs ! i)) (Height header) k
                 (Output.Value (Outputs (txs ! i) ! k))
                 (if TxType (txs ! i) = CoinBase then Height header + 100 else 0)) = Inl err \<and>
            subseq sel (take k (enumerate 0 (Outputs (txs ! i)))) \<and> length sel = hits \<and>
            effects bcf = effects bci @ map (utxo_put (Height header) (txs ! i)) sel) \<or>
         (\<exists>hits1 bc1 hits.
            commitOutputs S (Height header) (txs ! i)
              (enumerate 0 (Outputs (txs ! i))) bci 0 = (Inr hits1, bc1) \<and>
            commitInputs S (Height header) (txs ! i) (Inputs (txs ! i)) bc1 hits1 = (hits, bcf) \<and>
            0 < hits \<and>
            TXNs_Put S (DataStore bcf) (ToTxn (txs ! i) (Height header)) = Inl err))) \<and>
     (commitTxns S (Height header) txs bc0 0 = (Inr n, bct) \<and>
      Proofs_Put S (DataStore bct) mproof = Inl err \<longrightarrow>
        CommitBlock S header mproof txs bc = Some (Inl err, bct) \<and>
        Headers bct = Headers bc0 \<and>
        (\<exists>es. effects bct = effects bc0 @ es \<and> list_all is_txn_effect es \<and>
              replay S es (DataStore bc0) = Some (DataStore bct))) \<and>
     (commitTxns S (Height header) txs bc0 0 = (Inr n, bct) \<and>
      Proofs_Put S (DataStore bct) mproof = Inr ds \<and>
      Headers_Add S (Headers bct) header = Inl err \<longrightarrow>
        CommitBlock S header mproof txs bc =
          Some (Inl err, bct\<lparr>DataStore := ds, effects := effects bct @ [Put_Proof mproof]\<rparr>) \<and>
        Headers bct = Headers bc0 \<and>
        (\<exists>es. effects bct = effects bc0 @ es \<and> list_all is_txn_effect es \<and>
              replay S (es @ [Put_Proof mproof]) (DataStore bc0) = Some ds))"
proof -
  note cb = CommitBlock_after_fork_check [OF tip fork, of mproof txs]
  have a: "CommitBlock S header mproof txs bc = Some (Inl err, bcf) \<and>
        Headers bcf = Headers bc0 \<and>
        (\<exists>es1 es2. effects bci = effects bc0 @ es1 \<and> effects bcf = effects bci @ es2 \<and>
           list_all is_txn_effect (es1 @ es2) \<and>
           replay S es1 (DataStore bc0) = Some (DataStore bci) \<and>
           replay S es2 (DataStore bci) = Some (DataStore bcf)) \<and>
        ((\<exists>k hits sel. k < length (Outputs (txs ! i)) \<and>
            commitOutputs S (Height header) (txs ! i)
              (take k (enumerate 0 (Outputs (txs ! i)))) bci 0 = (Inr hits, bcf) \<and>
            Addrs_ContainAddr S (DataStore bcf) (ProgramHash (Outputs (txs ! i) ! k)) \<and>
            UTXOs_Put S (DataStore bcf) (ProgramHash (Outputs (txs ! i) ! k))
              (ToUTXO (Transaction.Hash (txs ! i)) (Height header) k
                 (Output.Value (Outputs (txs ! i) ! k))
                 (if TxType (txs ! i) = CoinBase then Height header + 100 else 0)) = Inl err \<and>
            subseq sel (take k (enumerate 0 (Outputs (txs ! i)))) \<and> length sel = hits \<and>
            effects bcf = effects bci @ map (utxo_put (Height header) (txs ! i)) sel) \<or>
         (\<exists>hits1 bc1 hits.
            commitOutputs S (Height header) (txs ! i)
              (enumerate 0 (Outputs (txs ! i))) bci 0 = (Inr hits1, bc1) \<and>
            commitInputs S (Height header) (txs ! i) (Inputs (txs ! i)) bc1 hits1 = (hits, bcf) \<and>
            0 < hits \<and>
            TXNs_Put S (DataStore bcf) (ToTxn (txs ! i) (Height header)) = Inl err))"
    if h: "i < length txs"
      "commitTxns S (Height header) (take i txs) bc0 0 = (Inr n, bci)"
      "commitTxn S (Height header) (txs ! i) bci = (Inl err, bcf)"
  proof -
    from commitTxns_fails_at [OF h] have "saveBlock S header mproof txs bc0 = (Inl err, bcf)"
      by (simp add: saveBlock_def)
    with cb have 1: "CommitBlock S header mproof txs bc = Some (Inl err, bcf)" by simp
    from commitTxns_kept [OF h(2)] obtain es1 where
      f1: "Headers bci = Headers bc0" "effects bci = effects bc0 @ es1" "list_all is_txn_effect es1"
        "replay S es1 (DataStore bc0) = Some (DataStore bci)"
      by blast
    from commitTxn_kept [OF h(3)] obtain es2 where
      f2: "Headers bcf = Headers bci" "effects bcf = effects bci @ es2" "list_all is_txn_effect es2"
        "replay S es2 (DataStore bci) = Some (DataStore bcf)"
      by blast
    from f1 f2 have "list_all is_txn_effect (es1 @ es2)" by simp
    with f1 f2 have 2: "\<exists>es1 es2. effects bci = effects bc0 @ es1 \<and> effects bcf = effects bci @ es2 \<and>
           list_all is_txn_effect (es1 @ es2) \<and>
           replay S es1 (DataStore bc0) = Some (DataStore bci) \<and>
           replay S es2 (DataStore bci) = Some (DataStore bcf)"
      by blast
    from f1(1) f2(1) have 3: "Headers bcf = Headers bc0" by simp
    note 4 = commitTxn_fails [OF h(3)]
    from 1 3 2 4 show ?thesis by (intro conjI)
  qed
  have b: "CommitBlock S header mproof txs bc = Some (Inl err, bct) \<and>
        Headers bct = Headers bc0 \<and>
        (\<exists>es. effects bct = effects bc0 @ es \<and> list_all is_txn_effect es \<and>
              replay S es (DataStore bc0) = Some (DataStore bct))"
    if h: "commitTxns S (Height header) txs bc0 0 = (Inr n, bct)"
      "Proofs_Put S (DataStore bct) mproof = Inl err"
  proof -
    from h have "saveBlock S header mproof txs bc0 = (Inl err, bct)"
      by (simp add: saveBlock_def)
    with cb have "CommitBlock S header mproof txs bc = Some (Inl err, bct)" by simp
    with commitTxns_kept [OF h(1)] show ?thesis by simp
  qed
  have c: "CommitBlock S header mproof txs bc =
          Some (Inl err, bct\<lparr>DataStore := ds, effects := effects bct @ [Put_Proof mproof]\<rparr>) \<and>
        Headers bct = Headers bc0 \<and>
        (\<exists>es. effects bct = effects bc0 @ es \<and> list_all is_txn_effect es \<and>
              replay S (es @ [Put_Proof mproof]) (DataStore bc0) = Some ds)"
    if h: "commitTxns S (Height header) txs bc0 0 = (Inr n, bct)"
      "Proofs_Put S (DataStore bct) mproof = Inr ds"
      "Headers_Add S (Headers bct) header = Inl err"
  proof -
    from h have "saveBlock S header mproof txs bc0 =
        (Inl err, bct\<lparr>DataStore := ds, effects := effects bct @ [Put_Proof mproof]\<rparr>)"
      by (simp add: saveBlock_def)
    with cb have 1: "CommitBlock S header mproof txs bc =
        Some (Inl err, bct\<lparr>DataStore := ds, effects := effects bct @ [Put_Proof mproof]\<rparr>)"
      by simp
    from commitTxns_kept [OF h(1)] obtain es where
      f: "Headers bct = Headers bc0" "effects bct = effects bc0 @ es" "list_all is_txn_effect es"
        "replay S es (DataStore bc0) = Some (DataStore bct)"
      by blast
    from h(2) have "replay S [Put_Proof mproof] (DataStore bct) = Some ds" by simp
    with f(4) have "replay S (es @ [Put_Proof mproof]) (DataStore bc0) = Some ds"
      by (rule replay_append_Some)
    with 1 f show ?thesis by blast
  qed
  from a b c show ?thesis by blast
qed

theorem commit_not_undone_witness:
  "(\<exists>bcf. commitTxn (memStores 10 1) 3 exTwoOutputs exChain =
             (Inl (Error ''utxo table full''), bcf) \<and>
          CommitBlock (memStores 10 1) (exHeader 3 13 12) exProof [exForeignTx, exTwoOutputs]
             exChain = Some (Inl (Error ''utxo table full''), bcf) \<and>
          effects bcf = [Put_UTXO exAddr (ToUTXO (hashN 23) 3 0 5 0)] \<and>
          mem_utxos (DataStore bcf) = [(exAddr, ToUTXO (hashN 23) 3 0 5 0)] \<and>
          replay (memStores 10 1) (effects bcf) (DataStore exChain) = Some (DataStore bcf) \<and>
          Headers bcf = Headers exChain) \<and>
   CommitBlock (memStores 10 0) (exHeader 3 13 12) exProof [exForeignTx] exChain =
     Some (Inl (Error ''proof table full''), exChain) \<and>
   (\<exists>bc1 ds. commitTxns (memStores 3 10) 3 [exCoinbase] exChain 0 = (Inr 0, bc1) \<and>
          CommitBlock (memStores 3 10) (exHeader 3 13 12) exProof [exCoinbase] exChain =
            Some (Inl (Error ''headers store full''),
                  bc1\<lparr>DataStore := ds, effects := effects bc1 @ [Put_Proof exProof]\<rparr>) \<and>
          Headers bc1 = Headers exChain)"
proof -
  have h3: "Height (exHeader 3 13 12) = 3" by (simp add: exHeader_def)
  have tip: "Headers_GetTip (memStores hcap dcap) (Headers exChain) = Inr (exHeader 2 12 11)"
    for hcap dcap
    by (simp add: mem_defs ex_defs)
  have fork: "if Height (exHeader 3 13 12) < Height (exHeader 2 12 11)
      then rollbackTo (memStores hcap dcap) (Previous (exHeader 3 13 12)) exChain = Some (None, exChain)
      else exChain = exChain" for hcap dcap
    by (simp add: exHeader_def)
  note tA = commit_not_undone [OF tip [of 10 1] fork [of 10 1], where mproof = exProof, unfolded h3]
  note tB = commit_not_undone [OF tip [of 10 0] fork [of 10 0], where mproof = exProof, unfolded h3]
  note tC = commit_not_undone [OF tip [of 3 10] fork [of 3 10], where mproof = exProof, unfolded h3]
  \<comment> \<open>the second transaction fails at its second output\<close>
  have e0: "effects exChain = []" by (simp add: ex_defs)
  have a0: "(1::nat) < length [exForeignTx, exTwoOutputs]" by simp
  have a1: "commitTxns (memStores 10 1) 3 (take 1 [exForeignTx, exTwoOutputs]) exChain 0 =
      (Inr 1, exChain)"
    by (simp add: commit_defs mem_defs ex_defs)
  have "\<exists>bcf. commitTxn (memStores 10 1) 3 ([exForeignTx, exTwoOutputs] ! 1) exChain =
      (Inl (Error ''utxo table full''), bcf) \<and>
      effects bcf = [Put_UTXO exAddr (ToUTXO (hashN 23) 3 0 5 0)] \<and>
      mem_utxos (DataStore bcf) = [(exAddr, ToUTXO (hashN 23) 3 0 5 0)]"
    by (simp add: commit_defs mem_defs ex_defs exTwoOutputs_def)
  then obtain bcf where a2: "commitTxn (memStores 10 1) 3 ([exForeignTx, exTwoOutputs] ! 1) exChain =
      (Inl (Error ''utxo table full''), bcf)"
    and a3: "effects bcf = [Put_UTXO exAddr (ToUTXO (hashN 23) 3 0 5 0)]"
      "mem_utxos (DataStore bcf) = [(exAddr, ToUTXO (hashN 23) 3 0 5 0)]"
    by blast
  from tA [where i = "1" and txs = "[exForeignTx, exTwoOutputs]"
      and n = "1" and bci = exChain and err = "Error ''utxo table full''" and bcf = bcf] a0 a1 a2
  have a4: "CommitBlock (memStores 10 1) (exHeader 3 13 12) exProof [exForeignTx, exTwoOutputs]
      exChain = Some (Inl (Error ''utxo table full''), bcf)"
    and a5: "Headers bcf = Headers exChain"
    and a6: "\<exists>es1 es2. effects exChain = effects exChain @ es1 \<and>
           effects bcf = effects exChain @ es2 \<and>
           list_all is_txn_effect (es1 @ es2) \<and>
           replay (memStores 10 1) es1 (DataStore exChain) = Some (DataStore exChain) \<and>
           replay (memStores 10 1) es2 (DataStore exChain) = Some (DataStore bcf)"
    by blast+
  from a6 e0 have a7: "replay (memStores 10 1) (effects bcf) (DataStore exChain) = Some (DataStore bcf)"
    by auto
  from a2 have a2': "commitTxn (memStores 10 1) 3 exTwoOutputs exChain =
      (Inl (Error ''utxo table full''), bcf)" by simp
  \<comment> \<open>the proof table is full\<close>
  have b1: "commitTxns (memStores 10 0) 3 [exForeignTx] exChain 0 = (Inr 1, exChain)"
    by (simp add: commit_defs mem_defs ex_defs)
  have b2: "Proofs_Put (memStores 10 0) (DataStore exChain) exProof = Inl (Error ''proof table full'')"
    by (simp add: mem_defs ex_defs)
  from tB [where txs = "[exForeignTx]" and n = "1" and bct = exChain
      and err = "Error ''proof table full''"] b1 b2
  have b: "CommitBlock (memStores 10 0) (exHeader 3 13 12) exProof [exForeignTx] exChain =
     Some (Inl (Error ''proof table full''), exChain)"
    by blast
  \<comment> \<open>the headers store is full\<close>
  have "\<exists>bc1 ds. commitTxns (memStores 3 10) 3 [exCoinbase] exChain 0 = (Inr 0, bc1) \<and>
      Proofs_Put (memStores 3 10) (DataStore bc1) exProof = Inr ds \<and>
      Headers_Add (memStores 3 10) (Headers bc1) (exHeader 3 13 12) = Inl (Error ''headers store full'')"
    by (simp add: commit_defs mem_defs ex_defs)
  then obtain bc1 ds where c1: "commitTxns (memStores 3 10) 3 [exCoinbase] exChain 0 = (Inr 0, bc1)"
    and c2: "Proofs_Put (memStores 3 10) (DataStore bc1) exProof = Inr ds"
    and c3: "Headers_Add (memStores 3 10) (Headers bc1) (exHeader 3 13 12) = Inl (Error ''headers store full'')"
    by blast
  from tC [where txs = "[exCoinbase]" and n = "0" and bct = bc1
      and ds = ds and err = "Error ''headers store full''"] c1 c2 c3
  have c: "CommitBlock (memStores 3 10) (exHeader 3 13 12) exProof [exCoinbase] exChain =
            Some (Inl (Error ''headers store full''),
                  bc1\<lparr>DataStore := ds, effects := effects bc1 @ [Put_Proof exProof]\<rparr>) \<and>
          Headers bc1 = Headers exChain"
    by blast
  from a2' a3 a4 a5 a7 b c1 c show ?thesis by blast
qed

text \<open>
  C10 as stated fails where it says that no merkle proof is written: when adding the
  header fails, the proof of the block has already been put.
\<close>

theorem header_failure_keeps_proof_counterexample:
  "map_option fst
     (CommitBlock (memStores 3 10) (exHeader 3 13 12) exProof [exCoinbase] exChain) =
     Some (Inl (Error ''headers store full'')) \<and>
   map_option (mem_proofs \<circ> DataStore \<circ> snd)
     (CommitBlock (memStores 3 10) (exHeader 3 13 12) exProof [exCoinbase] exChain) =
     Some [exProof] \<and>
   map_option (last \<circ> effects \<circ> snd)
     (CommitBlock (memStores 3 10) (exHeader 3 13 12) exProof [exCoinbase] exChain) =
     Some (Put_Proof exProof)"
  by (simp add: CommitBlock_def saveBlock_def commitTxn_def mem_defs ex_defs NewOutPoint_def
      ToUTXO_def ToTxn_def enumerate_eq_zip Let_def)

subsection \<open>Block locator\<close>

lemma locator_offset_0: "locator_offset 0 = 0"
  by (simp add: locator_offset_def)

lemma locator_offset_Suc: "locator_offset (Suc i) = locator_offset i + locator_step i"
  by (simp add: locator_offset_def)

lemma locator_step_pos: "0 < locator_step i"
  by (simp add: locator_step_def)

lemma locator_offset_mono: "i < j \<Longrightarrow> locator_offset i < locator_offset j"
proof (induction j)
  case 0
  then show ?case by simp
next
  case (Suc j)
  have "locator_offset j < locator_offset (Suc j)"
    using locator_step_pos [of j] by (simp add: locator_offset_Suc)
  with Suc show ?case by (cases "i = j") auto
qed

lemma rollback_add:
  "rollback S hs p (a + b) =
     (case rollback S hs p a of Inl err \<Rightarrow> Inl err | Inr q \<Rightarrow> rollback S hs q b)"
  by (induction a arbitrary: p) (auto split: sum.splits)

lemma rollback_Suc_end:
  "rollback S hs p (Suc n) =
     (case rollback S hs p n of Inl err \<Rightarrow> Inl err | Inr q \<Rightarrow> Headers_GetPrevious S hs q)"
proof -
  have "rollback S hs p (n + 1) =
      (case rollback S hs p n of Inl err \<Rightarrow> Inl err | Inr q \<Rightarrow> rollback S hs q 1)"
    by (rule rollback_add)
  then show ?thesis by (simp split: sum.splits)
qed

lemma rollback_descends:
  assumes down: "\<And>n p q. rollback S hs tip n = Inr p \<Longrightarrow>
                  Headers_GetPrevious S hs p = Inr q \<Longrightarrow> Height q < Height p"
  shows "rollback S hs tip i = Inr p \<Longrightarrow> rollback S hs tip (i + d) = Inr q \<Longrightarrow> 0 < d \<Longrightarrow>
         Height q < Height p"
proof (induction d arbitrary: q)
  case 0
  then show ?case by simp
next
  case (Suc d)
  from Suc.prems(2) obtain r where r: "rollback S hs tip (i + d) = Inr r"
    and q: "Headers_GetPrevious S hs r = Inr q"
    by (auto simp del: rollback.simps simp add: rollback_Suc_end split: sum.splits)
  from down [OF r q] have step: "Height q < Height r" .
  show ?case
  proof (cases d)
    case 0
    with r Suc.prems(1) have "r = p" by simp
    with step show ?thesis by simp
  next
    case (Suc m)
    with Suc.IH [OF Suc.prems(1) r] have "Height r < Height p" by simp
    with step show ?thesis by simp
  qed
qed

lemma Suc_mod_9: "Suc k mod 9 = (if k mod 9 = 8 then 0 else Suc (k mod 9))"
  by (simp add: mod_Suc)

lemma Suc_div_9: "Suc k div 9 = (if k mod 9 = 8 then Suc (k div 9) else k div 9)"
  by (simp add: div_Suc mod_Suc)

text \<open>The state of the loop when it is entered with \<open>k\<close> hashes collected.\<close>

lemma locatorLoop_walk:
  fixes S :: "('hs, 'ds) Stores"
  assumes "length ret = k" "k < MaxBlockLocatorHashes"
    and "start \<le> 9"
    and "if start = 9 then 0 < k \<and> k mod 9 = 0 \<and> 2 * step = locator_step k
         else start = k mod 9 \<and> step = locator_step k"
    and "rollback S hs tip (locator_offset k) = Inr parent"
    and "\<forall>i<k. \<exists>p. rollback S hs tip (locator_offset i) = Inr p \<and> ret ! i = Hash p"
  shows "k < length (locatorLoop S hs step start parent ret) \<and>
         length (locatorLoop S hs step start parent ret) \<le> MaxBlockLocatorHashes \<and>
         take k (locatorLoop S hs step start parent ret) = ret \<and>
         (\<forall>i<length (locatorLoop S hs step start parent ret).
            \<exists>p. rollback S hs tip (locator_offset i) = Inr p \<and>
                locatorLoop S hs step start parent ret ! i = Hash p) \<and>
         (length (locatorLoop S hs step start parent ret) < MaxBlockLocatorHashes \<longrightarrow>
            isl (rollback S hs tip (locator_offset (length (locatorLoop S hs step start parent ret)))))"
  using assms
proof (induction "MaxBlockLocatorHashes - k" arbitrary: k step start parent ret)
  case 0
  then show ?case by simp
next
  case (Suc d)
  define step' where "step' = (if start \<ge> 9 then step * 2 else step)"
  define start' where "start' = (if start \<ge> 9 then 0 else start)"
  define ret' where "ret' = ret @ [Hash parent]"
  have step': "step' = locator_step k" and start': "start' = k mod 9"
    using Suc.prems(3,4) by (auto simp: step'_def start'_def split: if_splits)
  have len': "length ret' = Suc k" using Suc.prems(1) by (simp add: ret'_def)
  have walk': "\<forall>i<Suc k. \<exists>p. rollback S hs tip (locator_offset i) = Inr p \<and> ret' ! i = Hash p"
  proof (intro allI impI)
    fix i assume "i < Suc k"
    then consider "i < k" | "i = k" by arith
    then show "\<exists>p. rollback S hs tip (locator_offset i) = Inr p \<and> ret' ! i = Hash p"
    proof cases
      case 1
      with Suc.prems(1,6) show ?thesis by (simp add: ret'_def nth_append)
    next
      case 2
      with Suc.prems(1,5) show ?thesis by (simp add: ret'_def nth_append)
    qed
  qed
  have next_anc: "rollback S hs tip (locator_offset (Suc k)) = rollback S hs parent step'"
    using Suc.prems(5) by (simp add: locator_offset_Suc rollback_add step')
  have unfold: "locatorLoop S hs step start parent ret =
      (if length ret' \<ge> MaxBlockLocatorHashes then ret'
       else (case rollback S hs parent step' of
               Inl err \<Rightarrow> ret'
             | Inr p \<Rightarrow> locatorLoop S hs step' (start' + 1) p ret'))"
    unfolding step'_def start'_def ret'_def
    by (subst locatorLoop.simps) (simp add: Let_def)
  show ?case
  proof (cases "length ret' \<ge> MaxBlockLocatorHashes")
    case True
    with unfold have L: "locatorLoop S hs step start parent ret = ret'" by simp
    from True len' Suc.prems(2) have "length ret' = MaxBlockLocatorHashes" by simp
    with L len' walk' Suc.prems(1) show ?thesis by (simp add: ret'_def)
  next
    case False
    show ?thesis
    proof (cases "rollback S hs parent step'")
      case (Inl err)
      with unfold False have L: "locatorLoop S hs step start parent ret = ret'" by simp
      from Inl next_anc have "isl (rollback S hs tip (locator_offset (Suc k)))" by simp
      with L len' walk' False Suc.prems(1) show ?thesis by (simp add: ret'_def)
    next
      case (Inr p)
      with unfold False have L: "locatorLoop S hs step start parent ret =
          locatorLoop S hs step' (start' + 1) p ret'" by simp
      have d: "d = MaxBlockLocatorHashes - Suc k" using Suc.hyps(2) by simp
      have lt: "Suc k < MaxBlockLocatorHashes" using False len' by simp
      have s9: "start' + 1 \<le> 9" using start' by simp
      have inv: "if start' + 1 = 9
             then 0 < Suc k \<and> Suc k mod 9 = 0 \<and> 2 * step' = locator_step (Suc k)
             else start' + 1 = Suc k mod 9 \<and> step' = locator_step (Suc k)"
      proof (cases "k mod 9 = 8")
        case True
        then have "Suc k mod 9 = 0" by (simp add: Suc_mod_9)
        moreover from True have "Suc k div 9 = Suc (k div 9)" by (simp add: Suc_div_9)
        ultimately show ?thesis using True start' step' by (simp add: locator_step_def)
      next
        case False
        then have "Suc k mod 9 = Suc (k mod 9)" by (simp add: Suc_mod_9)
        moreover from False have "Suc k div 9 = k div 9" by (simp add: Suc_div_9)
        ultimately show ?thesis using False start' step' by (simp add: locator_step_def)
      qed
      have anc: "rollback S hs tip (locator_offset (Suc k)) = Inr p"
        using next_anc Inr by simp
      note IH = Suc.hyps(1) [OF d len' lt s9 inv anc walk']
      from IH have t: "take (Suc k) (locatorLoop S hs step' (start' + 1) p ret') = ret'"
        by simp
      have "take k (locatorLoop S hs step' (start' + 1) p ret') =
          take k (take (Suc k) (locatorLoop S hs step' (start' + 1) p ret'))"
        by (simp add: min_def)
      then have "take k (locatorLoop S hs step' (start' + 1) p ret') = ret"
        using Suc.prems(1) by (simp only: t) (simp add: ret'_def)
      with IH L show ?thesis by simp
    qed
  qed
qed


lemma locatorLoop_from_tip:
  fixes S :: "('hs, 'ds) Stores"
  shows "0 < length (locatorLoop S hs 1 0 tip []) \<and>
         length (locatorLoop S hs 1 0 tip []) \<le> MaxBlockLocatorHashes \<and>
         (\<forall>i<length (locatorLoop S hs 1 0 tip []).
            \<exists>p. rollback S hs tip (locator_offset i) = Inr p \<and>
                locatorLoop S hs 1 0 tip [] ! i = Hash p) \<and>
         (length (locatorLoop S hs 1 0 tip []) < MaxBlockLocatorHashes \<longrightarrow>
            isl (rollback S hs tip (locator_offset (length (locatorLoop S hs 1 0 tip [])))))"
proof -
  have "0 < MaxBlockLocatorHashes" by (simp add: MaxBlockLocatorHashes_def)
  moreover have "if (0::nat) = 9 then 0 < (0::nat) \<and> (0::nat) mod 9 = 0 \<and> 2 * 1 = locator_step 0
         else (0::nat) = 0 mod 9 \<and> 1 = locator_step 0"
    by (simp add: locator_step_def)
  moreover have "rollback S hs tip (locator_offset 0) = Inr tip"
    by (simp add: locator_offset_0)
  ultimately show ?thesis
    using locatorLoop_walk [of "[]" 0 0 1 S hs tip tip] by simp
qed

lemma locator_distinct:
  fixes S :: "('hs, 'ds) Stores"
  assumes down: "\<And>n p q. rollback S hs tip n = Inr p \<Longrightarrow>
                  Headers_GetPrevious S hs p = Inr q \<Longrightarrow> Height q < Height p"
    and inj: "\<And>i j p q. rollback S hs tip i = Inr p \<Longrightarrow> rollback S hs tip j = Inr q \<Longrightarrow>
               Hash p = Hash q \<Longrightarrow> p = q"
    and walk: "\<forall>i<length L. \<exists>p. rollback S hs tip (locator_offset i) = Inr p \<and> L ! i = Hash p"
  shows "distinct L"
proof -
  have "L ! i \<noteq> L ! j" if ij: "i < j" "j < length L" for i j
  proof
    assume eq: "L ! i = L ! j"
    from walk ij obtain p where p: "rollback S hs tip (locator_offset i) = Inr p" "L ! i = Hash p"
      by (meson less_trans)
    from walk ij obtain q where q: "rollback S hs tip (locator_offset j) = Inr q" "L ! j = Hash q"
      by blast
    from locator_offset_mono [OF ij(1)] obtain d where
      d: "locator_offset j = locator_offset i + d" "0 < d"
      by (metis less_imp_add_positive)
    from q(1) d(1) have "rollback S hs tip (locator_offset i + d) = Inr q"
      by simp
    from rollback_descends [OF down p(1) this d(2)] have "Height q < Height p" .
    moreover from inj [OF p(1) q(1)] eq p(2) q(2) have "p = q" by simp
    ultimately show False by simp
  qed
  then show ?thesis
    by (metis distinct_conv_nth nat_neq_iff)
qed

text \<open>
  C7. On an empty chain \<open>GetBlockLocatorHashes\<close> returns the empty list. Otherwise the
  list starts with the tip's hash and has at most 200 entries; entry \<open>i\<close> is the hash
  of the header \<open>locator_offset i\<close> steps of \<open>GetPrevious\<close> behind the tip, the step
  being 1 at first and doubling every 9 entries; a list shorter than 200 ends where the
  next walk runs off the chain. On a chain (walking back from the tip lowers the
  height, and no two of its headers have the same hash) no hash is repeated.
\<close>

theorem GetBlockLocatorHashes_spec:
  fixes S :: "('hs, 'ds) Stores"
  shows
  "(\<forall>err. Headers_GetTip S (Headers bc) = Inl err \<longrightarrow> GetBlockLocatorHashes S bc = []) \<and>
   (\<forall>tip. Headers_GetTip S (Headers bc) = Inr tip \<longrightarrow>
      GetBlockLocatorHashes S bc \<noteq> [] \<and>
      hd (GetBlockLocatorHashes S bc) = Hash tip \<and>
      length (GetBlockLocatorHashes S bc) \<le> 200 \<and>
      (\<forall>i<length (GetBlockLocatorHashes S bc).
         \<exists>p. rollback S (Headers bc) tip (locator_offset i) = Inr p \<and>
             GetBlockLocatorHashes S bc ! i = Hash p) \<and>
      (length (GetBlockLocatorHashes S bc) < 200 \<longrightarrow>
         isl (rollback S (Headers bc) tip (locator_offset (length (GetBlockLocatorHashes S bc))))) \<and>
      ((\<forall>n p q. rollback S (Headers bc) tip n = Inr p \<and>
                Headers_GetPrevious S (Headers bc) p = Inr q \<longrightarrow> Height q < Height p) \<and>
       (\<forall>i j p q. rollback S (Headers bc) tip i = Inr p \<and>
                  rollback S (Headers bc) tip j = Inr q \<and> Hash p = Hash q \<longrightarrow> p = q) \<longrightarrow>
       distinct (GetBlockLocatorHashes S bc)))"
proof (intro conjI allI impI)
  fix err assume "Headers_GetTip S (Headers bc) = Inl err"
  then show "GetBlockLocatorHashes S bc = []"
    by (simp add: GetBlockLocatorHashes_def)
next
  fix tip assume tip: "Headers_GetTip S (Headers bc) = Inr tip"
  define L where "L = GetBlockLocatorHashes S bc"
  have L: "L = locatorLoop S (Headers bc) 1 0 tip []"
    using tip by (simp add: L_def GetBlockLocatorHashes_def)
  note w = locatorLoop_from_tip [of S "Headers bc" tip, folded L, unfolded MaxBlockLocatorHashes_def]
  from w show "L \<noteq> []" by auto
  from w have "\<exists>p. rollback S (Headers bc) tip (locator_offset 0) = Inr p \<and> L ! 0 = Hash p"
    by blast
  then have "L ! 0 = Hash tip" by (simp add: locator_offset_0)
  with \<open>L \<noteq> []\<close> show "hd L = Hash tip" by (simp add: hd_conv_nth)
  from w show "length L \<le> 200" by simp
  from w show "length L < 200 \<Longrightarrow>
      isl (rollback S (Headers bc) tip (locator_offset (length L)))" by simp
  {
    fix i assume "i < length L"
    with w show "\<exists>p. rollback S (Headers bc) tip (locator_offset i) = Inr p \<and> L ! i = Hash p"
      by blast
  }
  assume h: "(\<forall>n p q. rollback S (Headers bc) tip n = Inr p \<and>
                Headers_GetPrevious S (Headers bc) p = Inr q \<longrightarrow> Height q < Height p) \<and>
       (\<forall>i j p q. rollback S (Headers bc) tip i = Inr p \<and>
                  rollback S (Headers bc) tip j = Inr q \<and> Hash p = Hash q \<longrightarrow> p = q)"
  show "distinct L"
  proof (rule locator_distinct [of S "Headers bc" tip])
    show "\<And>n p q. rollback S (Headers bc) tip n = Inr p \<Longrightarrow>
        Headers_GetPrevious S (Headers bc) p = Inr q \<Longrightarrow> Height q < Height p"
      using h by blast
    show "\<And>i j p q. rollback S (Headers bc) tip i = Inr p \<Longrightarrow>
        rollback S (Headers bc) tip j = Inr q \<Longrightarrow> Hash p = Hash q \<Longrightarrow> p = q"
      using h by blast
    show "\<forall>i<length L. \<exists>p. rollback S (Headers bc) tip (locator_offset i) = Inr p \<and> L ! i = Hash p"
      using w by blast
  qed
qed

lemma exChain_ancestors:
  "rollback (memStores 20 10) (Headers exChain) (exHeader 2 12 11) n = Inr p \<Longrightarrow>
   (n = 0 \<and> p = exHeader 2 12 11) \<or> (n = 1 \<and> p = exHeader 1 11 10) \<or>
   (n = 2 \<and> p = exHeader 0 10 0)"
proof (cases n)
  case 0
  then show "rollback (memStores 20 10) (Headers exChain) (exHeader 2 12 11) n = Inr p \<Longrightarrow> ?thesis"
    by simp
next
  case n1: (Suc n1)
  show "rollback (memStores 20 10) (Headers exChain) (exHeader 2 12 11) n = Inr p \<Longrightarrow> ?thesis"
  proof (cases n1)
    case 0
    with n1 show "rollback (memStores 20 10) (Headers exChain) (exHeader 2 12 11) n = Inr p \<Longrightarrow> ?thesis"
      by (simp add: mem_defs ex_defs)
  next
    case n2: (Suc n2)
    show "rollback (memStores 20 10) (Headers exChain) (exHeader 2 12 11) n = Inr p \<Longrightarrow> ?thesis"
    proof (cases n2)
      case 0
      with n1 n2 show "rollback (memStores 20 10) (Headers exChain) (exHeader 2 12 11) n = Inr p \<Longrightarrow> ?thesis"
        by (simp add: mem_defs ex_defs)
    next
      case (Suc n3)
      with n1 n2 show "rollback (memStores 20 10) (Headers exChain) (exHeader 2 12 11) n = Inr p \<Longrightarrow> ?thesis"
        by (simp add: mem_defs ex_defs)
    qed
  qed
qed

theorem GetBlockLocatorHashes_spec_witness:
  "Headers_GetTip (memStores 20 10) (Headers (exChain\<lparr>Headers := []\<rparr>)) = Inl (Error ''no tip'') \<and>
   GetBlockLocatorHashes (memStores 20 10) (exChain\<lparr>Headers := []\<rparr>) = [] \<and>
   Headers_GetTip (memStores 20 10) (Headers exChain) = Inr (exHeader 2 12 11) \<and>
   GetBlockLocatorHashes (memStores 20 10) exChain = [hashN 12, hashN 11, hashN 10] \<and>
   hd (GetBlockLocatorHashes (memStores 20 10) exChain) = Hash (exHeader 2 12 11) \<and>
   distinct (GetBlockLocatorHashes (memStores 20 10) exChain) \<and>
   GetBlockLocatorHashes (memStores 20 10) exLongChain =
     map hashN [33, 32, 31, 30, 29, 28, 27, 26, 25, 24, 22, 20]"
proof -
  have e: "Headers_GetTip (memStores 20 10) (Headers (exChain\<lparr>Headers := []\<rparr>)) = Inl (Error ''no tip'')"
    by (simp add: mem_defs)
  have tip: "Headers_GetTip (memStores 20 10) (Headers exChain) = Inr (exHeader 2 12 11)"
    by (simp add: mem_defs ex_defs)
  have down: "\<forall>n p q. rollback (memStores 20 10) (Headers exChain) (exHeader 2 12 11) n = Inr p \<and>
      Headers_GetPrevious (memStores 20 10) (Headers exChain) p = Inr q \<longrightarrow> Height q < Height p"
  proof (intro allI impI, elim conjE)
    fix n p q
    assume r: "rollback (memStores 20 10) (Headers exChain) (exHeader 2 12 11) n = Inr p"
      and g: "Headers_GetPrevious (memStores 20 10) (Headers exChain) p = Inr q"
    from exChain_ancestors [OF r] consider "p = exHeader 2 12 11" | "p = exHeader 1 11 10"
      | "p = exHeader 0 10 0" by blast
    then show "Height q < Height p"
    proof cases
      case 1
      with g show ?thesis by (auto simp: mem_defs ex_defs)
    next
      case 2
      with g show ?thesis by (auto simp: mem_defs ex_defs)
    next
      case 3
      with g show ?thesis by (auto simp: mem_defs ex_defs)
    qed
  qed
  have inj: "\<forall>i j p q. rollback (memStores 20 10) (Headers exChain) (exHeader 2 12 11) i = Inr p \<and>
      rollback (memStores 20 10) (Headers exChain) (exHeader 2 12 11) j = Inr q \<and> Hash p = Hash q \<longrightarrow> p = q"
  proof (intro allI impI, elim conjE)
    fix i j p q
    assume p: "rollback (memStores 20 10) (Headers exChain) (exHeader 2 12 11) i = Inr p"
      and q: "rollback (memStores 20 10) (Headers exChain) (exHeader 2 12 11) j = Inr q"
      and h: "Hash p = Hash q"
    from exChain_ancestors [OF p] exChain_ancestors [OF q] h show "p = q"
      by (auto simp: exHeader_def)
  qed
  note t1 = GetBlockLocatorHashes_spec [of "memStores 20 10" "exChain\<lparr>Headers := []\<rparr>"]
  note t2 = GetBlockLocatorHashes_spec [of "memStores 20 10" exChain]
  from t1 e have a: "GetBlockLocatorHashes (memStores 20 10) (exChain\<lparr>Headers := []\<rparr>) = []"
    by blast
  from t2 tip have b: "hd (GetBlockLocatorHashes (memStores 20 10) exChain) = Hash (exHeader 2 12 11)"
    by blast
  from t2 tip down inj have c: "distinct (GetBlockLocatorHashes (memStores 20 10) exChain)"
    by blast
  have d: "GetBlockLocatorHashes (memStores 20 10) exChain = [hashN 12, hashN 11, hashN 10]"
    by (simp add: GetBlockLocatorHashes_def locatorLoop.simps MaxBlockLocatorHashes_def mem_defs ex_defs)
  have f: "GetBlockLocatorHashes (memStores 20 10) exLongChain =
     map hashN [33, 32, 31, 30, 29, 28, 27, 26, 25, 24, 22, 20]"
    by code_simp
  from e a tip d b c f show ?thesis by (intro conjI)
qed

subsection \<open>The request queue\<close>

lemmas queue_defs = newSystem_def NewRequestQueue_def worker_step_def StartBlockRequest_known_def
  StartBlockRequest_send_def StartBlockRequest_register_def StartBlockRequest_def PushHashes_def
  hashesQueue_send_def
  Clear_def OnBlockReceived_def OnTxReceived_def StartBlockTxsRequest_def Request_Start_def
  OnRequestFinished_def BlockTxsRequest_OnTxReceived_def Let_def

lemma StartBlockTxsRequest_existing_group:
  "\<not> blockTxsReqsLock q \<Longrightarrow> blockTxsRequests q (Hash (BlockHeader blk)) \<noteq> None \<Longrightarrow>
   StartBlockTxsRequest p blk txIds q = Returned () (q\<lparr>blockTxsReqsLock := True\<rparr>)"
  by (simp add: StartBlockTxsRequest_def Let_def)

lemma locked_calls_block:
  "blockTxsReqsLock q \<Longrightarrow>
   OnTxReceived tx q = Blocked q \<and> StartBlockTxsRequest p blk txIds q = Blocked q"
  by (simp add: OnTxReceived_def StartBlockTxsRequest_def)

lemma hashesQueue_send_capacity:
  "within_capacity (queue s) \<Longrightarrow> hashesQueue_send h s = Some s' \<Longrightarrow>
   within_capacity (queue s') \<and> qsize (queue s') = qsize (queue s)"
  by (auto simp: hashesQueue_send_def within_capacity_def split: if_splits)

lemma pushLoop_capacity:
  "within_capacity (queue s) \<Longrightarrow> pushLoop hashes s = Returned u s' \<Longrightarrow>
   within_capacity (queue s') \<and> qsize (queue s') = qsize (queue s)"
proof (induction hashes arbitrary: s)
  case Nil
  then show ?case by simp
next
  case (Cons h hashes)
  from Cons.prems(2) obtain s1 where s1: "hashesQueue_send h s = Some s1"
    and r: "pushLoop hashes s1 = Returned u s'"
    by (auto split: option.splits)
  from hashesQueue_send_capacity [OF Cons.prems(1) s1] Cons.IH [OF _ r] show ?case by simp
qed

lemma PushHashes_capacity:
  assumes "within_capacity (queue s)" and "PushHashes p hashes s = Returned u s'"
  shows "within_capacity (queue s') \<and> qsize (queue s') = qsize (queue s)"
proof -
  have "within_capacity (queue (s\<lparr>queue := (queue s)\<lparr>peer := Some p\<rparr>\<rparr>))"
    using assms(1) by (simp add: within_capacity_def)
  from pushLoop_capacity [OF this] assms(2) show ?thesis
    by (simp add: PushHashes_def)
qed

text \<open>
  \<open>size = 0\<close>: the first hash is handed to the waiting worker and \<open>PushHashes\<close> returns;
  the worker then waits at its send on \<open>blocksQueue\<close> for ever, and a second hash finds
  no receiver.
\<close>

lemma PushHashes_unbuffered:
  "\<exists>s0 s1. newSystem 0 = Some s0 \<and>
     PushHashes 1 [hashN 50] s0 = Returned () s1 \<and>
     worker s1 = Checking (Some 1) (hashN 50) \<and> hashesQueue (queue s1) = [] \<and>
     PushHashes 1 [hashN 51] s1 = Blocked s1 \<and>
     sys_run [Worker] s1 = Some (s1\<lparr>worker := Sending (Some 1) (hashN 50)\<rparr>) \<and>
     sys_run [Worker, Worker] s1 = None"
  by (simp add: queue_defs)

lemma pushLoop_unbuffered:
  "unbuffered s \<Longrightarrow> pushLoop hashes s = Returned u s' \<Longrightarrow> unbuffered s'"
proof (induction hashes arbitrary: s)
  case Nil
  then show ?case by simp
next
  case (Cons h hashes)
  from Cons.prems(2) obtain s1 where s1: "hashesQueue_send h s = Some s1"
    and r: "pushLoop hashes s1 = Returned u s'"
    by (auto split: option.splits)
  from Cons.prems(1) s1 have "unbuffered s1"
    by (auto simp: hashesQueue_send_def unbuffered_def split: if_splits)
  from Cons.IH [OF this r] show ?case .
qed

lemma sys_step_unbuffered:
  assumes "unbuffered s" "sys_step a s = Some s'"
  shows "unbuffered s'"
proof (cases a)
  case Worker
  with assms(2) have w: "worker_step s = Some s'" by simp
  show ?thesis
  proof (cases "worker s")
    case Idle
    with assms(1) w show ?thesis
      by (auto simp: worker_step_def unbuffered_def split: list.splits)
  next
    case (Checking p h)
    with assms(1) w show ?thesis
      by (auto simp: worker_step_def StartBlockRequest_known_def unbuffered_def
          split: if_splits bool.splits)
  next
    case (Sending p h)
    with assms(1) w show ?thesis
      by (auto simp: worker_step_def StartBlockRequest_send_def unbuffered_def split: if_splits)
  next
    case (Registering p h)
    with assms(1) show ?thesis by (simp add: unbuffered_def)
  qed
next
  case (Call_PushHashes p hashes)
  with assms(2) obtain u where "PushHashes p hashes s = Returned u s'"
    by (cases "PushHashes p hashes s") auto
  then have r: "pushLoop hashes (s\<lparr>queue := (queue s)\<lparr>peer := Some p\<rparr>\<rparr>) = Returned u s'"
    by (simp add: PushHashes_def)
  from assms(1) have "unbuffered (s\<lparr>queue := (queue s)\<lparr>peer := Some p\<rparr>\<rparr>)"
    by (simp add: unbuffered_def)
  from pushLoop_unbuffered [OF this r] show ?thesis .
next
  case (Call_OnBlockReceived blk txIds)
  with assms(2) obtain r q' where "OnBlockReceived blk txIds (queue s) = Returned r q'"
    "s' = s\<lparr>queue := q'\<rparr>"
    by (cases "OnBlockReceived blk txIds (queue s)") auto
  with assms(1) show ?thesis
    by (auto simp: OnBlockReceived_def unbuffered_def Let_def split: if_splits)
next
  case (Call_OnTxReceived tx)
  with assms(2) obtain r q' where q: "OnTxReceived tx (queue s) = Returned r q'"
    "s' = s\<lparr>queue := q'\<rparr>"
    by (cases "OnTxReceived tx (queue s)") auto
  have "qsize q' = qsize (queue s) \<and> blockRequests q' = blockRequests (queue s) \<and>
        blocksQueue q' = blocksQueue (queue s)"
    using q(1)
    by (auto simp: OnTxReceived_def OnRequestFinished_def Let_def
        split: if_splits option.splits prod.splits sum.splits list.splits)
  with assms(1) q(2) show ?thesis by (simp add: unbuffered_def)
next
  case Call_Clear
  with assms(2) obtain u q' where "Clear (queue s) = Returned u q'" "s' = s\<lparr>queue := q'\<rparr>"
    by (cases "Clear (queue s)") auto
  with assms(1) show ?thesis
    by (auto simp: Clear_def unbuffered_def Let_def split: if_splits)
qed

lemma sys_run_unbuffered:
  "unbuffered s \<Longrightarrow> sys_run as s = Some s' \<Longrightarrow> unbuffered s'"
proof (induction as arbitrary: s)
  case Nil
  then show ?case by simp
next
  case (Cons a as)
  from Cons.prems(2) obtain s1 where s1: "sys_step a s = Some s1" and r: "sys_run as s1 = Some s'"
    by (auto split: option.splits)
  from Cons.IH [OF sys_step_unbuffered [OF Cons.prems(1) s1] r] show ?case .
qed

lemma unbuffered_never_registers:
  assumes "newSystem 0 = Some s0" and "sys_run as s0 = Some s"
  shows "blockRequests (queue s) = Map.empty \<and> blocksQueue (queue s) = []"
proof -
  from assms(1) have "unbuffered s0"
    by (auto simp: newSystem_def NewRequestQueue_def unbuffered_def)
  from sys_run_unbuffered [OF this assms(2)] show ?thesis by (simp add: unbuffered_def)
qed

lemma startTxRequests_channels:
  "startTxRequests p blockHash txIds q m = (q', m') \<Longrightarrow>
   hashesQueue q' = hashesQueue q \<and> blocksQueue q' = blocksQueue q \<and>
   blockTxsQueue q' = blockTxsQueue q \<and> qsize q' = qsize q"
proof (induction txIds arbitrary: q m)
  case Nil
  then show ?case by simp
next
  case (Cons txId txIds)
  from Cons.prems have "startTxRequests p blockHash txIds
      (Request_Start \<lparr>Request.peer = p, hash = txId, reqType = TRANSACTION\<rparr>
         (q\<lparr>blockTxs := (blockTxs q)(txId \<mapsto> blockHash)\<rparr>))
      (m(txId \<mapsto> \<lparr>Request.peer = p, hash = txId, reqType = TRANSACTION\<rparr>)) = (q', m')"
    by (simp add: Let_def)
  from Cons.IH [OF this] show ?case by (simp add: Request_Start_def)
qed

lemma StartBlockTxsRequest_capacity:
  assumes "within_capacity q" "StartBlockTxsRequest p blk txIds q = Returned u q'"
  shows "within_capacity q' \<and> qsize q' = qsize q"
proof (cases "blockTxsRequests q (Hash (BlockHeader blk)) \<noteq> None")
  case True
  with assms show ?thesis
    by (auto simp: StartBlockTxsRequest_def Let_def within_capacity_def split: if_splits)
next
  case False
  define q3 where "q3 = q\<lparr>blockTxsReqsLock := True, blockTxsReqsLock := False,
      blockTxsQueue := blockTxsQueue q @ [Hash (BlockHeader blk)], blockTxsReqsLock := True\<rparr>"
  obtain q4 m where s: "startTxRequests p (Hash (BlockHeader blk)) txIds q3 Map.empty = (q4, m)"
    by (cases "startTxRequests p (Hash (BlockHeader blk)) txIds q3 Map.empty")
  from assms False s have room: "length (blockTxsQueue q) < nat (qsize q)"
    and q': "q' = q4\<lparr>blockTxsRequests :=
                 (blockTxsRequests q4)
                   (Hash (BlockHeader blk) \<mapsto> \<lparr>block = blk, txRequestQueue = m\<rparr>),
               blockTxsReqsLock := False\<rparr>"
    by (auto simp: StartBlockTxsRequest_def Let_def q3_def split: if_splits)
  from startTxRequests_channels [OF s] have
    "hashesQueue q4 = hashesQueue q" "blocksQueue q4 = blocksQueue q"
    "blockTxsQueue q4 = blockTxsQueue q @ [Hash (BlockHeader blk)]" "qsize q4 = qsize q"
    by (simp_all add: q3_def)
  with assms(1) room q' show ?thesis by (simp add: within_capacity_def)
qed

lemma OnBlockReceived_capacity:
  assumes "within_capacity q" "OnBlockReceived blk txIds q = Returned r q'"
  shows "within_capacity q' \<and> qsize q' = qsize q"
proof (cases "blockRequests q (Hash (BlockHeader blk))")
  case None
  with assms show ?thesis
    by (auto simp: OnBlockReceived_def Let_def within_capacity_def split: if_splits)
next
  case (Some request)
  show ?thesis
  proof (cases "blocksQueue q")
    case Nil
    with assms Some show ?thesis
      by (auto simp: OnBlockReceived_def Let_def split: if_splits)
  next
    case (Cons first rest)
    define q3 where "q3 = q\<lparr>blockReqsLock := True,
        blockRequests := (blockRequests q)(Hash (BlockHeader blk) := None),
        blocksQueue := rest\<rparr>"
    have c3: "within_capacity q3" "qsize q3 = qsize q"
      using assms(1) Cons by (simp_all add: q3_def within_capacity_def)
    show ?thesis
    proof (cases "length txIds = 0")
      case True
      with assms Some Cons have "q' = (OnRequestFinished \<lparr>block = blk, txRequestQueue = Map.empty\<rparr> q3)
          \<lparr>blockReqsLock := False\<rparr>"
        by (auto simp: OnBlockReceived_def Let_def q3_def split: if_splits)
      with c3 show ?thesis by (simp add: OnRequestFinished_def within_capacity_def Let_def)
    next
      case False
      with assms Some Cons obtain u q4 where
        s: "StartBlockTxsRequest (Request.peer request) blk txIds q3 = Returned u q4"
        and q': "q' = q4\<lparr>blockReqsLock := False\<rparr>"
        by (auto simp: OnBlockReceived_def Let_def q3_def split: if_splits call_outcome.splits)
      from StartBlockTxsRequest_capacity [OF c3(1) s] c3(2) q' show ?thesis
        by (auto simp: within_capacity_def)
    qed
  qed
qed

lemma OnTxReceived_capacity:
  assumes "within_capacity q" "OnTxReceived tx q = Returned r q'"
  shows "within_capacity q' \<and> qsize q' = qsize q"
proof (cases "blockTxs q (Transaction.Hash tx)")
  case None
  with assms show ?thesis
    by (auto simp: OnTxReceived_def Let_def within_capacity_def split: if_splits)
next
  case (Some blockHash)
  show ?thesis
  proof (cases "blockTxsRequests q blockHash")
    case None
    with assms Some show ?thesis
      by (auto simp: OnTxReceived_def Let_def within_capacity_def split: if_splits)
  next
    case g: (Some blockTxsRequest)
    obtain res request where
      o: "BlockTxsRequest_OnTxReceived (Transaction.Hash tx) blockTxsRequest = (res, request)"
      by (cases "BlockTxsRequest_OnTxReceived (Transaction.Hash tx) blockTxsRequest")
    show ?thesis
    proof (cases res)
      case (Inl err)
      with assms Some g o show ?thesis
        by (auto simp: OnTxReceived_def Let_def within_capacity_def split: if_splits)
    next
      case (Inr fin)
      show ?thesis
      proof (cases fin)
        case False
        with assms Some g o Inr show ?thesis
          by (auto simp: OnTxReceived_def Let_def within_capacity_def split: if_splits)
      next
        case True
        show ?thesis
        proof (cases "blockTxsQueue q")
          case Nil
          with assms Some g o Inr True show ?thesis
            by (auto simp: OnTxReceived_def Let_def split: if_splits)
        next
          case (Cons first rest)
          with assms Some g o Inr True show ?thesis
            by (auto simp: OnTxReceived_def Let_def within_capacity_def OnRequestFinished_def
                split: if_splits)
        qed
      qed
    qed
  qed
qed

lemma Clear_capacity:
  "Clear q = Returned u q' \<Longrightarrow> within_capacity q' \<and> qsize q' = qsize q"
  by (auto simp: Clear_def Let_def within_capacity_def split: if_splits)

lemma worker_step_capacity:
  assumes "within_capacity (queue s)" "worker_step s = Some s'"
  shows "within_capacity (queue s') \<and> qsize (queue s') = qsize (queue s)"
proof (cases "worker s")
  case Idle
  with assms show ?thesis
    by (auto simp: worker_step_def within_capacity_def split: list.splits)
next
  case (Checking p h)
  with assms show ?thesis
    by (auto simp: worker_step_def StartBlockRequest_known_def split: if_splits bool.splits)
next
  case (Sending p h)
  with assms show ?thesis
    by (auto simp: worker_step_def StartBlockRequest_send_def within_capacity_def
        split: if_splits)
next
  case (Registering p h)
  with assms show ?thesis
    by (auto simp: worker_step_def StartBlockRequest_register_def Request_Start_def
        within_capacity_def Let_def split: if_splits)
qed

lemma sys_step_capacity:
  assumes "within_capacity (queue s)" "sys_step a s = Some s'"
  shows "within_capacity (queue s') \<and> qsize (queue s') = qsize (queue s)"
proof (cases a)
  case Worker
  with assms(2) have "worker_step s = Some s'" by simp
  from worker_step_capacity [OF assms(1) this] show ?thesis .
next
  case (Call_PushHashes p hashes)
  with assms obtain u where "PushHashes p hashes s = Returned u s'"
    by (cases "PushHashes p hashes s") auto
  from PushHashes_capacity [OF assms(1) this] show ?thesis .
next
  case (Call_OnBlockReceived blk txIds)
  with assms obtain r q' where "OnBlockReceived blk txIds (queue s) = Returned r q'" "s' = s\<lparr>queue := q'\<rparr>"
    by (cases "OnBlockReceived blk txIds (queue s)") auto
  with OnBlockReceived_capacity [OF assms(1) this(1)] show ?thesis by simp
next
  case (Call_OnTxReceived tx)
  with assms obtain r q' where "OnTxReceived tx (queue s) = Returned r q'" "s' = s\<lparr>queue := q'\<rparr>"
    by (cases "OnTxReceived tx (queue s)") auto
  with OnTxReceived_capacity [OF assms(1) this(1)] show ?thesis by simp
next
  case Call_Clear
  with assms obtain u q' where "Clear (queue s) = Returned u q'" "s' = s\<lparr>queue := q'\<rparr>"
    by (cases "Clear (queue s)") auto
  with Clear_capacity [OF this(1)] show ?thesis by simp
qed

lemma sys_run_capacity:
  "within_capacity (queue s) \<Longrightarrow> sys_run as s = Some s' \<Longrightarrow>
   within_capacity (queue s') \<and> qsize (queue s') = qsize (queue s)"
proof (induction as arbitrary: s)
  case Nil
  then show ?case by simp
next
  case (Cons a as)
  from Cons.prems(2) obtain s1 where s1: "sys_step a s = Some s1" and r: "sys_run as s1 = Some s'"
    by (auto split: option.splits)
  from sys_step_capacity [OF Cons.prems(1) s1] Cons.IH [OF _ r] show ?case by simp
qed

text \<open>
  The channels keep their bounds. In every state the system reaches from
  \<open>NewRequestQueue\<close> by steps of the worker and by calls of \<open>PushHashes\<close>,
  \<open>OnBlockReceived\<close>, \<open>OnTxReceived\<close> and \<open>Clear\<close> that return, the hash intake queue
  holds at most \<open>2 * size\<close> hashes and the two slot queues at most \<open>size\<close> each.
\<close>

theorem channels_within_capacity:
  assumes "newSystem n = Some s0" and "sys_run as s0 = Some s"
  shows "length (hashesQueue (queue s)) \<le> nat (2 * n) \<and>
         length (blocksQueue (queue s)) \<le> nat n \<and>
         length (blockTxsQueue (queue s)) \<le> nat n"
proof -
  from assms(1) have "within_capacity (queue s0)" "qsize (queue s0) = n"
    by (auto simp: newSystem_def NewRequestQueue_def within_capacity_def split: if_splits)
  with sys_run_capacity [OF this(1) assms(2)] have "within_capacity (queue s)" "qsize (queue s) = n"
    by simp_all
  then have "length (hashesQueue (queue s)) \<le> nat (n * 2) \<and>
         length (blocksQueue (queue s)) \<le> nat n \<and>
         length (blockTxsQueue (queue s)) \<le> nat n"
    unfolding within_capacity_def by blast
  moreover have "n * 2 = 2 * n" by simp
  ultimately show ?thesis by (simp only:)
qed

theorem channels_within_capacity_witness:
  "\<exists>s0 s. newSystem 1 = Some s0 \<and>
     sys_run [Call_PushHashes 1 [hashN 50, hashN 51], Worker, Worker, Worker] s0 = Some s \<and>
     hashesQueue (queue s) = [hashN 51] \<and> blocksQueue (queue s) = [hashN 50] \<and>
     length (hashesQueue (queue s)) \<le> nat (2 * 1) \<and>
     length (blocksQueue (queue s)) \<le> nat 1 \<and>
     length (blockTxsQueue (queue s)) \<le> nat 1"
proof -
  have "\<exists>s0 s. newSystem 1 = Some s0 \<and>
     sys_run [Call_PushHashes 1 [hashN 50, hashN 51], Worker, Worker, Worker] s0 = Some s \<and>
     hashesQueue (queue s) = [hashN 51] \<and> blocksQueue (queue s) = [hashN 50]"
    by (simp add: queue_defs)
  then obtain s0 s where r: "newSystem 1 = Some s0"
    "sys_run [Call_PushHashes 1 [hashN 50, hashN 51], Worker, Worker, Worker] s0 = Some s"
    "hashesQueue (queue s) = [hashN 51]" "blocksQueue (queue s) = [hashN 50]"
    by blast
  from channels_within_capacity [OF r(1,2)] r show ?thesis by blast
qed

text \<open>
  C4. The bound on pending block requests does not hold in every reachable state. With
  \<open>size = 1\<close>: the worker has sent the first hash to \<open>blocksQueue\<close> (line 79) and not
  yet registered it; \<open>Clear\<close> empties \<open>blocksQueue\<close>; the worker registers the first
  request (lines 81 to 95); a second hash finds the channel empty and is registered as
  well. Two block requests are then pending.
\<close>

theorem too_many_block_requests:
  "\<exists>s. Option.bind (newSystem 1)
          (sys_run [Call_PushHashes 1 [hashN 50], Worker, Worker, Worker, Call_Clear, Worker,
                    Call_PushHashes 1 [hashN 51], Worker, Worker, Worker, Worker]) = Some s \<and>
        qsize (queue s) = 1 \<and>
        dom (blockRequests (queue s)) = {hashN 50, hashN 51} \<and>
        card (dom (blockRequests (queue s))) = 2"
  by (simp add: queue_defs insert_commute)

text \<open>
  C5. A transaction that was in flight when \<open>Clear\<close> was called is not ignored when it
  arrives later: \<open>Clear\<close> leaves its entry in \<open>blockTxs\<close>, the group is gone, and
  \<open>OnTxReceived\<close> returns the error of line 195.
\<close>

theorem late_transaction_after_Clear:
  "\<exists>s q1 q2. Option.bind (newSystem 2)
          (sys_run [Call_PushHashes 1 [hashN 50], Worker, Worker, Worker, Worker,
                    Call_OnBlockReceived exBlock [Transaction.Hash exCoinbase]]) = Some s \<and>
        blockTxs (queue s) (Transaction.Hash exCoinbase) = Some (hashN 50) \<and>
        blockTxsRequests (queue s) (hashN 50) \<noteq> None \<and>
        Clear (queue s) = Returned () q1 \<and>
        OnTxReceived exCoinbase q1 = Returned (Some (Error ''Request not exist with id: '')) q2"
  by (simp add: queue_defs exBlock_def exHeader_def exCoinbase_def)

text \<open>
  C6. For a block that already has a group, \<open>StartBlockTxsRequest\<close> leaves the maps and
  the slot queue as they were but returns with \<open>blockTxsReqsLock\<close> held; \<open>OnTxReceived\<close>
  and \<open>Clear\<close> then wait for the lock.
\<close>

theorem StartBlockTxsRequest_leaves_lock_held:
  "\<exists>s q. Option.bind (newSystem 2)
          (sys_run [Call_PushHashes 1 [hashN 50], Worker, Worker, Worker, Worker,
                    Call_OnBlockReceived exBlock [Transaction.Hash exCoinbase]]) = Some s \<and>
        blockTxsRequests (queue s) (Hash (BlockHeader exBlock)) \<noteq> None \<and>
        blockTxsReqsLock (queue s) = False \<and>
        StartBlockTxsRequest (Some 1) exBlock [Transaction.Hash exCoinbase] (queue s) =
          Returned () q \<and>
        q = (queue s)\<lparr>blockTxsReqsLock := True\<rparr> \<and>
        OnTxReceived exCoinbase q = Blocked q \<and>
        Clear q = Blocked (q\<lparr>hashesQueue := [], blocksQueue := [], blockTxsQueue := [],
                            blockRequests := Map.empty\<rparr>)"
  by (simp add: queue_defs exBlock_def exHeader_def exCoinbase_def)

end
